theory Spec2Isabelle
  imports Complex_Main
begin

section \<open>LRUCache (src/js/LRUCache.js)\<close>

text \<open>
  The cache wraps a JavaScript \<^verbatim>\<open>Map\<close>, which iterates its entries in insertion
  order. The model keeps that order: the entries are an association list, oldest entry
  first, and a key occurs at most once in it. \<^verbatim>\<open>Map.delete\<close> removes the entry of a
  key, \<^verbatim>\<open>Map.set\<close> of an absent key appends one.

  A cached value may or may not carry a \<^verbatim>\<open>close()\<close> method (the source tests
  \<^verbatim>\<open>value && typeof value.close === 'function'\<close>). A call of \<^verbatim>\<open>close()\<close> is an effect
  outside the cache; the model records every call, in order, in the field \<open>close_calls\<close>.
\<close>

datatype 'a cached =
    Bitmap 'a   \<comment> \<open>a truthy value that has a \<^verbatim>\<open>close\<close> function\<close>
  | Plain 'a    \<comment> \<open>any other value\<close>

fun has_close :: "'a cached \<Rightarrow> bool" where
  "has_close (Bitmap _) = True"
| "has_close (Plain _) = False"

record ('k, 'a) lru_cache =
  maxSize :: nat
  cache :: "('k \<times> 'a cached) list"
  close_calls :: "'a cached list"

definition new_cache :: "nat \<Rightarrow> ('k, 'a) lru_cache" where
  "new_cache n = \<lparr>maxSize = n, cache = [], close_calls = []\<rparr>"

definition map_has :: "('k \<times> 'v) list \<Rightarrow> 'k \<Rightarrow> bool" where
  "map_has m k = (k \<in> set (map fst m))"

definition map_delete :: "'k \<Rightarrow> ('k \<times> 'v) list \<Rightarrow> ('k \<times> 'v) list" where
  "map_delete k m = filter (\<lambda>e. fst e \<noteq> k) m"

definition close_if_bitmap :: "'a cached \<Rightarrow> 'a cached list \<Rightarrow> 'a cached list" where
  "close_if_bitmap v calls = (if has_close v then calls @ [v] else calls)"

definition lru_get :: "'k \<Rightarrow> ('k, 'a) lru_cache \<Rightarrow> 'a cached option \<times> ('k, 'a) lru_cache" where
  "lru_get key c =
     (case map_of (cache c) key of
        None \<Rightarrow> (None, c)
      | Some v \<Rightarrow> (Some v, c\<lparr>cache := map_delete key (cache c) @ [(key, v)]\<rparr>))"

definition lru_set :: "'k \<Rightarrow> 'a cached \<Rightarrow> ('k, 'a) lru_cache \<Rightarrow> ('k, 'a) lru_cache" where
  "lru_set key v c =
     (if map_has (cache c) key then
        c\<lparr>cache := map_delete key (cache c) @ [(key, v)]\<rparr>
      else if length (cache c) \<ge> maxSize c then
        (case cache c of
           [] \<Rightarrow> c\<lparr>cache := [(key, v)]\<rparr>
         | (firstKey, evicted) # rest \<Rightarrow>
             c\<lparr>cache := rest @ [(key, v)], close_calls := close_if_bitmap evicted (close_calls c)\<rparr>)
      else
        c\<lparr>cache := cache c @ [(key, v)]\<rparr>)"

definition lru_has :: "'k \<Rightarrow> ('k, 'a) lru_cache \<Rightarrow> bool" where
  "lru_has key c = map_has (cache c) key"

definition lru_delete :: "'k \<Rightarrow> ('k, 'a) lru_cache \<Rightarrow> bool \<times> ('k, 'a) lru_cache" where
  "lru_delete key c =
     (case map_of (cache c) key of
        None \<Rightarrow> (False, c)
      | Some v \<Rightarrow>
          (True, c\<lparr>cache := map_delete key (cache c), close_calls := close_if_bitmap v (close_calls c)\<rparr>))"

text \<open>The loop of \<^verbatim>\<open>clear\<close> over \<^verbatim>\<open>this.cache.values()\<close>, oldest value first.\<close>

fun close_all :: "'a cached list \<Rightarrow> 'a cached list \<Rightarrow> 'a cached list" where
  "close_all [] calls = calls"
| "close_all (v # vs) calls = close_all vs (close_if_bitmap v calls)"

definition lru_clear :: "('k, 'a) lru_cache \<Rightarrow> ('k, 'a) lru_cache" where
  "lru_clear c = c\<lparr>close_calls := close_all (map snd (cache c)) (close_calls c), cache := []\<rparr>"

definition lru_size :: "('k, 'a) lru_cache \<Rightarrow> nat" where
  "lru_size c = length (cache c)"

definition lru_keys :: "('k, 'a) lru_cache \<Rightarrow> 'k list" where
  "lru_keys c = map fst (cache c)"

definition lru_values :: "('k, 'a) lru_cache \<Rightarrow> 'a cached list" where
  "lru_values c = map snd (cache c)"

text \<open>Inserting a list of entries one after the other, as a caller's loop would.\<close>

fun lru_set_all :: "('k \<times> 'a cached) list \<Rightarrow> ('k, 'a) lru_cache \<Rightarrow> ('k, 'a) lru_cache" where
  "lru_set_all [] c = c"
| "lru_set_all ((k, v) # kvs) c = lru_set_all kvs (lru_set k v c)"


text \<open>A cache and a list of entries on which the statements below are run.\<close>

definition demo_cache :: "(nat, nat) lru_cache" where
  "demo_cache = \<lparr>maxSize = 2, cache = [(4, Bitmap 10), (5, Plain 20)], close_calls = []\<rparr>"

definition demo_entries :: "(nat \<times> nat cached) list" where
  "demo_entries = [(4, Bitmap 10), (5, Plain 20), (6, Bitmap 30)]"


subsection \<open>Facts about the operations\<close>

lemma map_has_iff: "map_has m k \<longleftrightarrow> map_of m k \<noteq> None"
  by (simp add: map_has_def map_of_eq_None_iff)

lemma map_fst_map_delete: "map fst (map_delete k m) = removeAll k (map fst m)"
  by (induction m) (auto simp: map_delete_def)

lemma map_delete_absent: "\<not> map_has m k \<Longrightarrow> map_delete k m = m"
  by (induction m) (auto simp: map_delete_def map_has_def)

lemma close_all_filter: "close_all vs calls = calls @ filter has_close vs"
  by (induction vs arbitrary: calls) (auto simp: close_if_bitmap_def)

lemma lru_set_absent_room:
  "\<not> map_has (cache c) key \<Longrightarrow> length (cache c) < maxSize c \<Longrightarrow>
   lru_set key v c = c\<lparr>cache := cache c @ [(key, v)]\<rparr>"
  by (simp add: lru_set_def)

lemma lru_set_absent_full:
  "\<not> map_has (cache c) key \<Longrightarrow> maxSize c \<le> length (cache c) \<Longrightarrow>
   cache c = (k0, v0) # rest \<Longrightarrow>
   lru_set key v c = c\<lparr>cache := rest @ [(key, v)], close_calls := close_if_bitmap v0 (close_calls c)\<rparr>"
  by (simp add: lru_set_def)

lemma lru_set_present:
  "map_has (cache c) key \<Longrightarrow>
   lru_set key v c = c\<lparr>cache := map_delete key (cache c) @ [(key, v)]\<rparr>"
  by (simp add: lru_set_def)

lemma lru_set_all_distinct:
  "distinct (map fst (cache c @ kvs)) \<Longrightarrow> length (cache c) \<le> maxSize c \<Longrightarrow> 0 < maxSize c \<Longrightarrow>
   lru_set_all kvs c =
     c\<lparr>cache := drop (length (cache c @ kvs) - maxSize c) (cache c @ kvs),
       close_calls := close_calls c @ filter has_close (map snd (take (length (cache c @ kvs) - maxSize c) (cache c @ kvs)))\<rparr>"
proof (induction kvs arbitrary: c)
  case Nil
  then show ?case by simp
next
  case (Cons kv kvs)
  obtain k v where kv: "kv = (k, v)" by (cases kv)
  from Cons.prems have absent: "\<not> map_has (cache c) k"
    by (auto simp: kv map_has_def)
  show ?case
  proof (cases "length (cache c) < maxSize c")
    case True
    have step: "lru_set k v c = c\<lparr>cache := cache c @ [(k, v)]\<rparr>"
      using absent True by (rule lru_set_absent_room)
    show ?thesis
      using Cons.prems True Cons.IH[of "c\<lparr>cache := cache c @ [(k, v)]\<rparr>"]
      by (simp add: kv step)
  next
    case False
    with Cons.prems have full: "length (cache c) = maxSize c" by simp
    with Cons.prems obtain k0 v0 rest where c: "cache c = (k0, v0) # rest"
      by (cases "cache c") auto
    have step: "lru_set k v c = c\<lparr>cache := rest @ [(k, v)], close_calls := close_if_bitmap v0 (close_calls c)\<rparr>"
      using absent full c by (intro lru_set_absent_full) auto
    have len: "length rest + 1 = maxSize c" using full c by simp
    show ?thesis
      using Cons.prems len
        Cons.IH[of "c\<lparr>cache := rest @ [(k, v)], close_calls := close_if_bitmap v0 (close_calls c)\<rparr>"]
      by (auto simp add: kv step c close_if_bitmap_def Suc_diff_le)
  qed
qed


lemma map_of_map_delete_append:
  "map_of (map_delete k m @ [(k, v)]) = (map_of m)(k \<mapsto> v)"
proof
  fix x
  have "map_of (map_delete k m) x = (if x = k then None else map_of m x)"
    by (induction m) (auto simp: map_delete_def)
  then show "map_of (map_delete k m @ [(k, v)]) x = ((map_of m)(k \<mapsto> v)) x"
    by (auto simp: map_add_def split: option.splits)
qed

lemma lru_get_present:
  "map_of (cache c) k = Some v \<Longrightarrow>
   lru_get k c = (Some v, c\<lparr>cache := map_delete k (cache c) @ [(k, v)]\<rparr>)"
  by (simp add: lru_get_def)

lemma lru_insert_past_capacity:
  assumes "0 < C" "distinct (map fst kvs)" "length kvs = Suc C"
  shows "lru_set_all kvs (new_cache C) =
           \<lparr>maxSize = C, cache = tl kvs, close_calls = filter has_close [snd (hd kvs)]\<rparr>"
proof -
  obtain kv rest where kvs: "kvs = kv # rest" using assms(3) by (cases kvs) auto
  show ?thesis
    using assms lru_set_all_distinct[of "new_cache C" kvs]
    by (simp add: new_cache_def kvs)
qed


subsection \<open>Eviction order, promotion and release\<close>

text \<open>
  Claim C6. For a cache of capacity \<open>C\<close> (at least 1), inserting \<open>C + 1\<close> entries with
  distinct keys into the empty cache evicts exactly the first inserted, least recently used
  entry, and \<^verbatim>\<open>close()\<close> is called on its value when it has one; more generally
  \<^verbatim>\<open>set\<close> of an absent key on a full cache evicts the oldest entry. \<^verbatim>\<open>get\<close> of a
  present key returns its value and moves the key to the most recently used end, so that
  the next eviction takes another key than it would have without the \<^verbatim>\<open>get\<close>.
  \<^verbatim>\<open>set\<close> of a present key replaces the value and moves the key to the most recently
  used end. \<^verbatim>\<open>clear\<close> empties the cache and calls \<^verbatim>\<open>close()\<close> once for each held
  value that has it, oldest first. The cache is a \<^verbatim>\<open>Map\<close>: each key occurs once.
\<close>

theorem lru_eviction_contract:
  fixes c :: "('k, 'a) lru_cache"
  assumes "distinct (lru_keys c)"
  shows
    "(0 < C \<and> distinct (map fst kvs) \<and> length kvs = Suc C \<longrightarrow>
        cache (lru_set_all kvs (new_cache C)) = tl kvs \<and>
        close_calls (lru_set_all kvs (new_cache C)) = filter has_close [snd (hd kvs)])
     \<and> (\<not> lru_has k2 c \<and> maxSize c \<le> lru_size c \<and> cache c = (k0, v0) # rest0 \<longrightarrow>
        cache (lru_set k2 v c) = rest0 @ [(k2, v)] \<and>
        close_calls (lru_set k2 v c) = close_calls c @ filter has_close [v0])
     \<and> (map_of (cache c) key = Some w \<longrightarrow>
        fst (lru_get key c) = Some w \<and>
        lru_keys (snd (lru_get key c)) = removeAll key (lru_keys c) @ [key] \<and>
        map_of (cache (snd (lru_get key c))) = map_of (cache c) \<and>
        close_calls (snd (lru_get key c)) = close_calls c)
     \<and> (cache c = (key, w) # (k1, v1) # rest \<and> maxSize c = lru_size c \<and> \<not> lru_has k2 c \<longrightarrow>
        lru_keys (lru_set k2 v c) = k1 # map fst rest @ [k2] \<and>
        lru_keys (lru_set k2 v (snd (lru_get key c))) = map fst rest @ [key, k2])
     \<and> (lru_has key c \<longrightarrow>
        cache (lru_set key v c) = map_delete key (cache c) @ [(key, v)] \<and>
        lru_keys (lru_set key v c) = removeAll key (lru_keys c) @ [key] \<and>
        map_of (cache (lru_set key v c)) = (map_of (cache c))(key \<mapsto> v))
     \<and> cache (lru_clear c) = []
     \<and> close_calls (lru_clear c) = close_calls c @ filter has_close (lru_values c)"
proof (intro conjI impI)
  assume "0 < C \<and> distinct (map fst kvs) \<and> length kvs = Suc C"
  then have *: "lru_set_all kvs (new_cache C) =
           \<lparr>maxSize = C, cache = tl kvs, close_calls = filter has_close [snd (hd kvs)]\<rparr>"
    by (intro lru_insert_past_capacity) auto
  show "cache (lru_set_all kvs (new_cache C)) = tl kvs" by (simp add: *)
  show "close_calls (lru_set_all kvs (new_cache C)) = filter has_close [snd (hd kvs)]"
    by (simp add: *)
next
  assume a: "\<not> lru_has k2 c \<and> maxSize c \<le> lru_size c \<and> cache c = (k0, v0) # rest0"
  then have *: "lru_set k2 v c = c\<lparr>cache := rest0 @ [(k2, v)], close_calls := close_if_bitmap v0 (close_calls c)\<rparr>"
    by (intro lru_set_absent_full) (auto simp: lru_has_def lru_size_def)
  show "cache (lru_set k2 v c) = rest0 @ [(k2, v)]" by (simp add: *)
  show "close_calls (lru_set k2 v c) = close_calls c @ filter has_close [v0]"
    by (simp add: * close_if_bitmap_def)
next
  assume a: "map_of (cache c) key = Some w"
  note g = lru_get_present[OF a]
  show "fst (lru_get key c) = Some w" by (simp add: g)
  show "lru_keys (snd (lru_get key c)) = removeAll key (lru_keys c) @ [key]"
    by (simp add: g lru_keys_def map_fst_map_delete)
  show "map_of (cache (snd (lru_get key c))) = map_of (cache c)"
    using a by (simp add: g map_of_map_delete_append fun_upd_idem del: map_of_append)
  show "close_calls (snd (lru_get key c)) = close_calls c" by (simp add: g)
next
  assume a: "cache c = (key, w) # (k1, v1) # rest \<and> maxSize c = lru_size c \<and> \<not> lru_has k2 c"
  from a assms have d: "key \<noteq> k1" "key \<notin> fst ` set rest" "k2 \<noteq> key" "k2 \<noteq> k1" "k2 \<notin> fst ` set rest"
    by (auto simp: lru_keys_def lru_has_def map_has_def)
  have md: "map_delete key rest = rest"
    using d(2) by (intro map_delete_absent) (simp add: map_has_def)
  from a have g: "lru_get key c = (Some w, c\<lparr>cache := (k1, v1) # rest @ [(key, w)]\<rparr>)"
    using d(1) md by (simp add: lru_get_def map_delete_def)
  from a have cc: "cache c = (key, w) # (k1, v1) # rest" and full: "maxSize c = Suc (Suc (length rest))"
    by (simp_all add: lru_size_def)
  show "lru_keys (lru_set k2 v c) = k1 # map fst rest @ [k2]"
    using d by (simp add: lru_set_def lru_keys_def map_has_def cc full)
  show "lru_keys (lru_set k2 v (snd (lru_get key c))) = map fst rest @ [key, k2]"
    using d by (simp add: g lru_set_def lru_keys_def map_has_def cc full)
next
  assume a: "lru_has key c"
  then have *: "lru_set key v c = c\<lparr>cache := map_delete key (cache c) @ [(key, v)]\<rparr>"
    by (simp add: lru_set_present lru_has_def)
  show "cache (lru_set key v c) = map_delete key (cache c) @ [(key, v)]" by (simp add: *)
  show "lru_keys (lru_set key v c) = removeAll key (lru_keys c) @ [key]"
    by (simp add: * lru_keys_def map_fst_map_delete)
  show "map_of (cache (lru_set key v c)) = (map_of (cache c))(key \<mapsto> v)"
    by (simp add: * map_of_map_delete_append del: map_of_append)
next
  show "cache (lru_clear c) = []" by (simp add: lru_clear_def)
  show "close_calls (lru_clear c) = close_calls c @ filter has_close (lru_values c)"
    by (simp add: lru_clear_def close_all_filter lru_values_def)
qed


theorem lru_eviction_contract_witness:
  "distinct (lru_keys demo_cache)
   \<and> distinct (map fst demo_entries) \<and> length demo_entries = Suc 2
   \<and> \<not> lru_has 6 demo_cache \<and> lru_has 4 demo_cache \<and> maxSize demo_cache = lru_size demo_cache
   \<and> cache (lru_set_all demo_entries (new_cache 2)) = [(5, Plain 20), (6, Bitmap 30)]
   \<and> close_calls (lru_set_all demo_entries (new_cache 2)) = [Bitmap 10]
   \<and> cache (lru_set 6 (Plain 7) demo_cache) = [(5, Plain 20), (6, Plain 7)]
   \<and> close_calls (lru_set 6 (Plain 7) demo_cache) = [Bitmap 10]
   \<and> fst (lru_get 4 demo_cache) = Some (Bitmap 10)
   \<and> lru_keys (snd (lru_get 4 demo_cache)) = [5, 4]
   \<and> lru_keys (lru_set 6 (Plain 7) demo_cache) = [5, 6]
   \<and> lru_keys (lru_set 6 (Plain 7) (snd (lru_get 4 demo_cache))) = [4, 6]
   \<and> cache (lru_set 4 (Plain 7) demo_cache) = [(5, Plain 20), (4, Plain 7)]
   \<and> close_calls (lru_clear demo_cache) = [Bitmap 10]"
proof -
  have d: "distinct (lru_keys demo_cache)"
    by (simp add: demo_cache_def lru_keys_def)
  have h: "\<not> lru_has 6 demo_cache" "lru_has 4 demo_cache" "maxSize demo_cache = lru_size demo_cache"
    "cache demo_cache = (4, Bitmap 10) # (5, Plain 20) # []"
    "map_of (cache demo_cache) 4 = Some (Bitmap 10)"
    "distinct (map fst demo_entries)" "length demo_entries = Suc 2"
    by (simp_all add: demo_cache_def demo_entries_def lru_has_def map_has_def lru_size_def)
  have k: "lru_keys demo_cache = [4, 5]" "lru_values demo_cache = [Bitmap 10, Plain 20]"
    "close_calls demo_cache = []" "map_delete (4::nat) [(4, Bitmap 10), (5, Plain (20::nat))] = [(5, Plain 20)]"
    "tl demo_entries = [(5, Plain 20), (6, Bitmap 30)]" "snd (hd demo_entries) = Bitmap 10"
    by (simp_all add: demo_cache_def demo_entries_def lru_keys_def lru_values_def map_delete_def)
  note t = lru_eviction_contract[OF d, where C = 2 and kvs = demo_entries
      and ?k2.0 = 6 and ?k0.0 = 4 and ?v0.0 = "Bitmap 10" and ?rest0.0 = "[(5, Plain 20)]"
      and v = "Plain 7" and key = 4 and w = "Bitmap 10" and ?k1.0 = 5 and ?v1.0 = "Plain 20"
      and rest = "[]"]
  from t h have
    "cache (lru_set_all demo_entries (new_cache 2)) = [(5, Plain 20), (6, Bitmap 30)]"
    "close_calls (lru_set_all demo_entries (new_cache 2)) = [Bitmap 10]"
    "cache (lru_set 6 (Plain 7) demo_cache) = [(5, Plain 20), (6, Plain 7)]"
    "close_calls (lru_set 6 (Plain 7) demo_cache) = [Bitmap 10]"
    "fst (lru_get 4 demo_cache) = Some (Bitmap 10)"
    "lru_keys (snd (lru_get 4 demo_cache)) = [5, 4]"
    "lru_keys (lru_set 6 (Plain 7) demo_cache) = [5, 6]"
    "lru_keys (lru_set 6 (Plain 7) (snd (lru_get 4 demo_cache))) = [4, 6]"
    "cache (lru_set 4 (Plain 7) demo_cache) = [(5, Plain 20), (4, Plain 7)]"
    "close_calls (lru_clear demo_cache) = [Bitmap 10]"
    by (simp_all add: k)
  with d h show ?thesis by simp
qed


text \<open>
  Claim C9. \<^verbatim>\<open>set\<close> of a key that is already present makes no \<^verbatim>\<open>close()\<close> call:
  the value it replaces is dropped as it is. A \<^verbatim>\<open>set\<close> that does make a call is one of
  an absent key on a cache at capacity, and the call is on the evicted oldest value;
  \<^verbatim>\<open>get\<close> makes none. (\<^verbatim>\<open>delete\<close> and \<^verbatim>\<open>clear\<close> are the other two places of the
  source that call \<^verbatim>\<open>close()\<close>.)
\<close>

theorem lru_set_existing_key_no_release:
  "(lru_has key c \<longrightarrow> close_calls (lru_set key v c) = close_calls c)
   \<and> (close_calls (lru_set key v c) \<noteq> close_calls c \<longrightarrow>
        \<not> lru_has key c \<and> maxSize c \<le> lru_size c \<and>
        (\<exists>evicted. close_calls (lru_set key v c) = close_calls c @ [evicted] \<and>
           has_close evicted \<and> map snd (take 1 (cache c)) = [evicted]))
   \<and> close_calls (snd (lru_get key c)) = close_calls c"
  by (auto simp: lru_set_def lru_get_def lru_has_def lru_size_def close_if_bitmap_def
      split: list.splits option.splits if_splits)

theorem lru_set_existing_key_no_release_witness:
  "lru_has 4 demo_cache
   \<and> close_calls (lru_set 4 (Bitmap 11) demo_cache) = close_calls demo_cache
   \<and> map_of (cache (lru_set 4 (Bitmap 11) demo_cache)) 4 = Some (Bitmap 11)
   \<and> close_calls (lru_set 6 (Bitmap 11) demo_cache) \<noteq> close_calls demo_cache
   \<and> \<not> lru_has 6 demo_cache \<and> maxSize demo_cache \<le> lru_size demo_cache"
  using lru_set_existing_key_no_release[of 4 demo_cache "Bitmap 11"]
    lru_set_existing_key_no_release[of 6 demo_cache "Bitmap 11"]
  by (simp add: demo_cache_def lru_has_def map_has_def lru_set_def map_delete_def
      lru_size_def close_if_bitmap_def)



section \<open>Boxes and the object store (src/js/LabelParser.js, cloneBox and cloneBoxes)\<close>

text \<open>
  A box is a JavaScript object; arrays hold references to box objects, and two arrays can
  hold the same object. The model keeps the objects in a store: a reference is a natural
  number, \<open>cells\<close> gives the object behind a reference, and \<open>next_ref\<close> is the first
  reference not yet handed out, so an object created by \<^verbatim>\<open>{ ...box }\<close> is new and
  aliases no older one. A JavaScript number is modelled by an exact number: \<open>classId\<close>
  is an integer, the four coordinates are reals. The field \<^verbatim>\<open>id\<close> is \<open>box_id\<close> here.
\<close>

type_synonym ref = nat

record box =
  box_id :: string
  classId :: int
  xCenter :: real
  yCenter :: real
  width :: real
  height :: real
  deleted :: bool
  selected :: bool
  lineIndex :: nat

record heap =
  cells :: "ref \<Rightarrow> box"
  next_ref :: ref

definition alloc :: "box \<Rightarrow> heap \<Rightarrow> ref \<times> heap" where
  "alloc b h = (next_ref h, \<lparr>cells = (cells h)(next_ref h := b), next_ref = Suc (next_ref h)\<rparr>)"

definition cloneBox :: "ref \<Rightarrow> heap \<Rightarrow> ref \<times> heap" where
  "cloneBox r h = alloc (cells h r) h"

fun cloneBoxes :: "ref list \<Rightarrow> heap \<Rightarrow> ref list \<times> heap" where
  "cloneBoxes [] h = ([], h)"
| "cloneBoxes (r # rs) h =
     (let (r', h1) = cloneBox r h; (rs', h2) = cloneBoxes rs h1 in (r' # rs', h2))"

text \<open>An assignment to one field of the object behind a reference.\<close>

definition set_deleted :: "bool \<Rightarrow> ref \<Rightarrow> heap \<Rightarrow> heap" where
  "set_deleted d r h = h\<lparr>cells := (cells h)(r := (cells h r)\<lparr>deleted := d\<rparr>)\<rparr>"

definition set_selected :: "bool \<Rightarrow> ref \<Rightarrow> heap \<Rightarrow> heap" where
  "set_selected v r h = h\<lparr>cells := (cells h)(r := (cells h r)\<lparr>selected := v\<rparr>)\<rparr>"

text \<open>\<^verbatim>\<open>boxes.find(b => b.id === i)\<close>: the first box of the array with that id.\<close>

definition find_by_id :: "heap \<Rightarrow> ref list \<Rightarrow> string \<Rightarrow> ref option" where
  "find_by_id h bs i = find (\<lambda>b. box_id (cells h b) = i) bs"

section \<open>StateManager (src/unnamed/part_000)\<close>

text \<open>
  \<^verbatim>\<open>imageStates\<close> is a \<^verbatim>\<open>Map\<close> from image index to a state object with four arrays.
  The two box arrays are lists of references into the store; the stacks are lists of
  actions with the top at the end, as \<^verbatim>\<open>push\<close> and \<^verbatim>\<open>pop\<close> have it, and
  \<^verbatim>\<open>shift\<close> removes the head. The store is carried with the manager. The constructor
  sets \<^verbatim>\<open>maxStackSize\<close> to 50 and nothing assigns it again: it is a constant here.
  \<^verbatim>\<open>Date.now()\<close> is an input of the operations that record an action. Both callers
  of \<^verbatim>\<open>recordAction\<close> leave \<^verbatim>\<open>extraData\<close> at its default, the empty object.
\<close>

record action =
  action_type :: string
  action_boxes :: "ref list"
  timestamp :: nat

record image_state =
  boxes :: "ref list"
  originalBoxes :: "ref list"
  undoStack :: "action list"
  redoStack :: "action list"

record state_manager =
  currentIndex :: int
  imageStates :: "int \<rightharpoonup> image_state"
  globalModified :: "int set"
  store :: heap

definition maxStackSize :: nat where
  "maxStackSize = 50"

definition new_state_manager :: "heap \<Rightarrow> state_manager" where
  "new_state_manager h =
     \<lparr>currentIndex = -1, imageStates = Map.empty, globalModified = {}, store = h\<rparr>"

definition current_state :: "state_manager \<Rightarrow> image_state option" where
  "current_state s = imageStates s (currentIndex s)"

definition put_state :: "image_state \<Rightarrow> state_manager \<Rightarrow> state_manager" where
  "put_state st s = s\<lparr>imageStates := (imageStates s)(currentIndex s \<mapsto> st)\<rparr>"

definition initImageState :: "int \<Rightarrow> ref list \<Rightarrow> state_manager \<Rightarrow> state_manager" where
  "initImageState index bxs s =
     (if imageStates s index = None then
        (let (clonedBoxes, h1) = cloneBoxes bxs (store s);
             (orig, h2) = cloneBoxes bxs h1
         in s\<lparr>imageStates := (imageStates s)(index \<mapsto>
                 \<lparr>boxes = clonedBoxes, originalBoxes = orig, undoStack = [], redoStack = []\<rparr>),
               store := h2, currentIndex := index\<rparr>)
      else s\<lparr>currentIndex := index\<rparr>)"

definition setCurrentIndex :: "int \<Rightarrow> state_manager \<Rightarrow> state_manager" where
  "setCurrentIndex index s = s\<lparr>currentIndex := index\<rparr>"

definition getCurrentBoxes :: "state_manager \<Rightarrow> ref list" where
  "getCurrentBoxes s = (case current_state s of None \<Rightarrow> [] | Some st \<Rightarrow> boxes st)"

definition setCurrentBoxes :: "ref list \<Rightarrow> state_manager \<Rightarrow> state_manager" where
  "setCurrentBoxes bxs s =
     (case current_state s of
        None \<Rightarrow> s
      | Some st \<Rightarrow>
          (let (bs, h) = cloneBoxes bxs (store s)
           in (put_state (st\<lparr>boxes := bs\<rparr>) s)\<lparr>store := h\<rparr>))"

definition recordAction :: "nat \<Rightarrow> string \<Rightarrow> ref list \<Rightarrow> state_manager \<Rightarrow> state_manager" where
  "recordAction now ty affectedBoxes s =
     (case current_state s of
        None \<Rightarrow> s
      | Some st \<Rightarrow>
          (let (bs, h) = cloneBoxes affectedBoxes (store s);
               act = \<lparr>action_type = ty, action_boxes = bs, timestamp = now\<rparr>;
               pushed = undoStack st @ [act];
               trimmed = (if length pushed > maxStackSize then tl pushed else pushed)
           in (put_state (st\<lparr>undoStack := trimmed, redoStack := []\<rparr>) s)\<lparr>store := h\<rparr>))"

text \<open>
  The loop over \<^verbatim>\<open>action.boxes\<close> in \<^verbatim>\<open>undo\<close> and \<^verbatim>\<open>redo\<close>: each saved box is
  looked up by id in the working array; a box that is found gets \<^verbatim>\<open>deleted = d\<close> and
  \<^verbatim>\<open>selected = false\<close>, one that is not found is passed over.
\<close>

fun replay :: "bool \<Rightarrow> ref list \<Rightarrow> ref list \<Rightarrow> heap \<Rightarrow> heap" where
  "replay d [] bs h = h"
| "replay d (savedBox # rest) bs h =
     replay d rest bs
       (case find_by_id h bs (box_id (cells h savedBox)) of
          None \<Rightarrow> h
        | Some b \<Rightarrow> set_selected False b (set_deleted d b h))"

text \<open>The loop of \<^verbatim>\<open>updateModifiedState\<close>, which leaves at the first difference.\<close>

fun hasChanges :: "heap \<Rightarrow> ref list \<Rightarrow> ref list \<Rightarrow> bool" where
  "hasChanges h orig [] = False"
| "hasChanges h orig (b # rest) =
     (case find_by_id h orig (box_id (cells h b)) of
        None \<Rightarrow> True
      | Some original \<Rightarrow>
          if deleted (cells h b) \<noteq> deleted (cells h original) then True
          else hasChanges h orig rest)"

definition updateModifiedState :: "state_manager \<Rightarrow> state_manager" where
  "updateModifiedState s =
     (case current_state s of
        None \<Rightarrow> s
      | Some st \<Rightarrow>
          if hasChanges (store s) (originalBoxes st) (boxes st)
          then s\<lparr>globalModified := insert (currentIndex s) (globalModified s)\<rparr>
          else s\<lparr>globalModified := globalModified s - {currentIndex s}\<rparr>)"

definition undo :: "state_manager \<Rightarrow> bool \<times> state_manager" where
  "undo s =
     (case current_state s of
        None \<Rightarrow> (False, s)
      | Some st \<Rightarrow>
          if undoStack st = [] then (False, s)
          else
            (let act = last (undoStack st);
                 h = (if action_type act = ''delete''
                        then replay False (action_boxes act) (boxes st) (store s)
                      else if action_type act = ''restore''
                        then replay True (action_boxes act) (boxes st) (store s)
                      else store s);
                 st' = st\<lparr>undoStack := butlast (undoStack st), redoStack := redoStack st @ [act]\<rparr>
             in (True, updateModifiedState ((put_state st' s)\<lparr>store := h\<rparr>))))"

definition redo :: "state_manager \<Rightarrow> bool \<times> state_manager" where
  "redo s =
     (case current_state s of
        None \<Rightarrow> (False, s)
      | Some st \<Rightarrow>
          if redoStack st = [] then (False, s)
          else
            (let act = last (redoStack st);
                 h = (if action_type act = ''delete''
                        then replay True (action_boxes act) (boxes st) (store s)
                      else if action_type act = ''restore''
                        then replay False (action_boxes act) (boxes st) (store s)
                      else store s);
                 st' = st\<lparr>redoStack := butlast (redoStack st), undoStack := undoStack st @ [act]\<rparr>
             in (True, updateModifiedState ((put_state st' s)\<lparr>store := h\<rparr>))))"

definition canUndo :: "state_manager \<Rightarrow> bool" where
  "canUndo s = (case current_state s of None \<Rightarrow> False | Some st \<Rightarrow> undoStack st \<noteq> [])"

definition canRedo :: "state_manager \<Rightarrow> bool" where
  "canRedo s = (case current_state s of None \<Rightarrow> False | Some st \<Rightarrow> redoStack st \<noteq> [])"

definition markModified :: "state_manager \<Rightarrow> state_manager" where
  "markModified s = s\<lparr>globalModified := insert (currentIndex s) (globalModified s)\<rparr>"

text \<open>The loops \<^verbatim>\<open>for (const box of ...) { box.deleted = d; box.selected = false; }\<close>.\<close>

fun mark_all :: "bool \<Rightarrow> ref list \<Rightarrow> heap \<Rightarrow> heap" where
  "mark_all d [] h = h"
| "mark_all d (b # rest) h = mark_all d rest (set_selected False b (set_deleted d b h))"

definition deleteSelected :: "nat \<Rightarrow> state_manager \<Rightarrow> nat \<times> state_manager" where
  "deleteSelected now s =
     (case current_state s of
        None \<Rightarrow> (0, s)
      | Some st \<Rightarrow>
          (let sel = filter (\<lambda>b. selected (cells (store s) b) \<and> \<not> deleted (cells (store s) b))
                       (boxes st)
           in if sel = [] then (0, s)
              else
                (let s1 = recordAction now ''delete'' sel s;
                     s2 = s1\<lparr>store := mark_all True sel (store s1)\<rparr>
                 in (length sel, markModified s2))))"

definition restoreDeleted :: "bool \<Rightarrow> nat \<Rightarrow> state_manager \<Rightarrow> nat \<times> state_manager" where
  "restoreDeleted onlySelected now s =
     (case current_state s of
        None \<Rightarrow> (0, s)
      | Some st \<Rightarrow>
          (let toRestore =
                 (if onlySelected
                  then filter (\<lambda>b. deleted (cells (store s) b) \<and> selected (cells (store s) b))
                         (boxes st)
                  else filter (\<lambda>b. deleted (cells (store s) b)) (boxes st))
           in if toRestore = [] then (0, s)
              else
                (let s1 = recordAction now ''restore'' toRestore s;
                     s2 = s1\<lparr>store := mark_all False toRestore (store s1)\<rparr>
                 in (length toRestore, markModified s2))))"


fun select_live :: "ref list \<Rightarrow> heap \<Rightarrow> heap" where
  "select_live [] h = h"
| "select_live (b # rest) h =
     select_live rest (if \<not> deleted (cells h b) then set_selected True b h else h)"

definition selectAll :: "state_manager \<Rightarrow> state_manager" where
  "selectAll s =
     (case current_state s of
        None \<Rightarrow> s
      | Some st \<Rightarrow> s\<lparr>store := select_live (boxes st) (store s)\<rparr>)"

fun deselect_all :: "ref list \<Rightarrow> heap \<Rightarrow> heap" where
  "deselect_all [] h = h"
| "deselect_all (b # rest) h = deselect_all rest (set_selected False b h)"

definition clearSelection :: "state_manager \<Rightarrow> state_manager" where
  "clearSelection s =
     (case current_state s of
        None \<Rightarrow> s
      | Some st \<Rightarrow> s\<lparr>store := deselect_all (boxes st) (store s)\<rparr>)"

definition toggleBoxSelection :: "string \<Rightarrow> state_manager \<Rightarrow> state_manager" where
  "toggleBoxSelection boxId s =
     (case current_state s of
        None \<Rightarrow> s
      | Some st \<Rightarrow>
          (case find_by_id (store s) (boxes st) boxId of
             None \<Rightarrow> s
           | Some b \<Rightarrow>
               if \<not> deleted (cells (store s) b)
               then s\<lparr>store := set_selected (\<not> selected (cells (store s) b)) b (store s)\<rparr>
               else s))"

definition selectBox :: "string \<Rightarrow> state_manager \<Rightarrow> state_manager" where
  "selectBox boxId s0 =
     (let s = clearSelection s0 in
      case current_state s of
        None \<Rightarrow> s
      | Some st \<Rightarrow>
          (case find_by_id (store s) (boxes st) boxId of
             None \<Rightarrow> s
           | Some b \<Rightarrow>
               if \<not> deleted (cells (store s) b)
               then s\<lparr>store := set_selected True b (store s)\<rparr>
               else s))"

definition getSelectedCount :: "state_manager \<Rightarrow> nat" where
  "getSelectedCount s =
     (case current_state s of
        None \<Rightarrow> 0
      | Some st \<Rightarrow>
          length (filter (\<lambda>b. selected (cells (store s) b) \<and> \<not> deleted (cells (store s) b))
            (boxes st)))"

definition getBoxCount :: "state_manager \<Rightarrow> nat" where
  "getBoxCount s =
     (case current_state s of
        None \<Rightarrow> 0
      | Some st \<Rightarrow> length (filter (\<lambda>b. \<not> deleted (cells (store s) b)) (boxes st)))"

definition getDeletedCount :: "state_manager \<Rightarrow> nat" where
  "getDeletedCount s =
     (case current_state s of
        None \<Rightarrow> 0
      | Some st \<Rightarrow> length (filter (\<lambda>b. deleted (cells (store s) b)) (boxes st)))"



definition markSaved :: "state_manager \<Rightarrow> state_manager" where
  "markSaved s =
     (case current_state s of
        None \<Rightarrow> s
      | Some st \<Rightarrow>
          (let nonDeleted = filter (\<lambda>b. \<not> deleted (cells (store s) b)) (boxes st);
               (orig, h1) = cloneBoxes nonDeleted (store s);
               (bs, h2) = cloneBoxes nonDeleted h1
           in (put_state
                 (st\<lparr>originalBoxes := orig, boxes := bs, undoStack := [], redoStack := []\<rparr>) s)
               \<lparr>store := h2, globalModified := globalModified s - {currentIndex s}\<rparr>))"

definition markSavedAt :: "int \<Rightarrow> state_manager \<Rightarrow> state_manager" where
  "markSavedAt index s =
     (let prevIndex = currentIndex s;
          s1 = markSaved (s\<lparr>currentIndex := index\<rparr>)
      in s1\<lparr>currentIndex := prevIndex\<rparr>)"

definition getBoxesForSave :: "state_manager \<Rightarrow> ref list" where
  "getBoxesForSave s =
     (case current_state s of
        None \<Rightarrow> []
      | Some st \<Rightarrow> filter (\<lambda>b. \<not> deleted (cells (store s) b)) (boxes st))"

definition hasUnsavedChanges :: "state_manager \<Rightarrow> bool" where
  "hasUnsavedChanges s = (globalModified s \<noteq> {})"

definition clearImageState :: "int \<Rightarrow> state_manager \<Rightarrow> state_manager" where
  "clearImageState index s =
     s\<lparr>imageStates := (imageStates s)(index := None), globalModified := globalModified s - {index}\<rparr>"

definition clearAll :: "state_manager \<Rightarrow> state_manager" where
  "clearAll s = s\<lparr>imageStates := Map.empty, globalModified := {}, currentIndex := -1\<rparr>"

definition resetCurrent :: "state_manager \<Rightarrow> state_manager" where
  "resetCurrent s =
     (case current_state s of
        None \<Rightarrow> s
      | Some st \<Rightarrow>
          (let (bs, h) = cloneBoxes (originalBoxes st) (store s)
           in (put_state (st\<lparr>boxes := bs, undoStack := [], redoStack := []\<rparr>) s)
               \<lparr>store := h, globalModified := globalModified s - {currentIndex s}\<rparr>))"

subsection \<open>Runs of the manager\<close>

text \<open>
  The calls a client can make that change the manager or the store. \<open>Create\<close> and
  \<open>Assign\<close> are the client's own work on box objects: it creates one (as the parser
  does), or assigns to the fields of one it holds a reference to.
\<close>

datatype op =
    InitImageState int "ref list"
  | SetCurrentIndex int
  | SetCurrentBoxes "ref list"
  | RecordAction nat string "ref list"
  | Undo
  | Redo
  | DeleteSelected nat
  | RestoreDeleted bool nat
  | SelectAll
  | ClearSelection
  | ToggleBoxSelection string
  | SelectBox string
  | MarkModified
  | MarkSaved
  | MarkSavedAt int
  | ClearImageState int
  | ClearAll
  | ResetCurrent
  | Create box
  | Assign ref box

fun step :: "op \<Rightarrow> state_manager \<Rightarrow> state_manager" where
  "step (InitImageState i bxs) s = initImageState i bxs s"
| "step (SetCurrentIndex i) s = setCurrentIndex i s"
| "step (SetCurrentBoxes bxs) s = setCurrentBoxes bxs s"
| "step (RecordAction now ty bxs) s = recordAction now ty bxs s"
| "step Undo s = snd (undo s)"
| "step Redo s = snd (redo s)"
| "step (DeleteSelected now) s = snd (deleteSelected now s)"
| "step (RestoreDeleted onlySelected now) s = snd (restoreDeleted onlySelected now s)"
| "step SelectAll s = selectAll s"
| "step ClearSelection s = clearSelection s"
| "step (ToggleBoxSelection i) s = toggleBoxSelection i s"
| "step (SelectBox i) s = selectBox i s"
| "step MarkModified s = markModified s"
| "step MarkSaved s = markSaved s"
| "step (MarkSavedAt i) s = markSavedAt i s"
| "step (ClearImageState i) s = clearImageState i s"
| "step ClearAll s = clearAll s"
| "step ResetCurrent s = resetCurrent s"
| "step (Create b) s = s\<lparr>store := snd (alloc b (store s))\<rparr>"
| "step (Assign r b) s = s\<lparr>store := (store s)\<lparr>cells := (cells (store s))(r := b)\<rparr>\<rparr>"

fun run :: "op list \<Rightarrow> state_manager \<Rightarrow> state_manager" where
  "run [] s = s"
| "run (c # cs) s = run cs (step c s)"

subsection \<open>Predicates and example sessions used in the statements\<close>

text \<open>
  \<open>undo_store\<close> and \<open>redo_store\<close> name the store after the replay loop of
  \<^verbatim>\<open>undo\<close> and \<^verbatim>\<open>redo\<close>. \<open>stacks_bounded\<close>, \<open>in_sync\<close> and \<open>owns_apart\<close> are
  the invariants of the sessions; \<open>journal\<close> lists, for a sequence of calls, the actions
  they record. The views read a session's box arrays through the store.
\<close>

definition replay_targets :: "heap \<Rightarrow> ref list \<Rightarrow> ref list \<Rightarrow> ref set" where
  "replay_targets h saved bs =
     {b. \<exists>sv\<in>set saved. find_by_id h bs (box_id (cells h sv)) = Some b}"


definition undo_store :: "image_state \<Rightarrow> heap \<Rightarrow> heap" where
  "undo_store st h =
     (let act = last (undoStack st) in
      if action_type act = ''delete'' then replay False (action_boxes act) (boxes st) h
      else if action_type act = ''restore'' then replay True (action_boxes act) (boxes st) h
      else h)"

definition redo_store :: "image_state \<Rightarrow> heap \<Rightarrow> heap" where
  "redo_store st h =
     (let act = last (redoStack st) in
      if action_type act = ''delete'' then replay True (action_boxes act) (boxes st) h
      else if action_type act = ''restore'' then replay False (action_boxes act) (boxes st) h
      else h)"




definition no_box :: box where
  "no_box = \<lparr>box_id = [], classId = 0, xCenter = 0, yCenter = 0, width = 0, height = 0,
     deleted = False, selected = False, lineIndex = 0\<rparr>"

definition empty_heap :: heap where
  "empty_heap = \<lparr>cells = (\<lambda>_. no_box), next_ref = 0\<rparr>"

definition box_a :: box where
  "box_a = \<lparr>box_id = ''a'', classId = 0, xCenter = 1/2, yCenter = 1/2, width = 1/5, height = 2/5,
     deleted = False, selected = False, lineIndex = 0\<rparr>"

definition box_b :: box where
  "box_b = \<lparr>box_id = ''b'', classId = 2, xCenter = 1/10, yCenter = 1/10, width = 1/20,
     height = 1/20, deleted = False, selected = False, lineIndex = 1\<rparr>"

definition fresh_session :: state_manager where
  "fresh_session = run [Create box_a, Create box_b] (new_state_manager empty_heap)"

definition demo_session :: state_manager where
  "demo_session = initImageState 0 [0, 1] fresh_session"

definition selected_session :: state_manager where
  "selected_session = selectAll demo_session"

definition deleted_session :: state_manager where
  "deleted_session = snd (deleteSelected 7 selected_session)"

definition replaced_session :: state_manager where
  "replaced_session = setCurrentBoxes [3] deleted_session"

definition undone_session :: state_manager where
  "undone_session = snd (undo replaced_session)"


definition reloaded_session :: state_manager where
  "reloaded_session = setCurrentBoxes [0, 1] deleted_session"

definition moved_session :: state_manager where
  "moved_session = recordAction 9 ''move'' [2] selected_session"

definition stacks_bounded :: "state_manager \<Rightarrow> bool" where
  "stacks_bounded s \<longleftrightarrow>
     (\<forall>i st. imageStates s i = Some st \<longrightarrow>
        length (undoStack st) + length (redoStack st) \<le> maxStackSize)"

definition stamps :: "action list \<Rightarrow> (string \<times> nat) list" where
  "stamps as = map (\<lambda>a. (action_type a, timestamp a)) as"

definition last_n :: "nat \<Rightarrow> 'a list \<Rightarrow> 'a list" where
  "last_n n xs = drop (length xs - n) xs"

fun edits :: "op \<Rightarrow> bool" where
  "edits (RecordAction now ty bxs) = True"
| "edits (DeleteSelected now) = True"
| "edits (RestoreDeleted onlySelected now) = True"
| "edits SelectAll = True"
| "edits ClearSelection = True"
| "edits (ToggleBoxSelection i) = True"
| "edits (SelectBox i) = True"
| "edits MarkModified = True"
| "edits (Create b) = True"
| "edits (Assign r b) = True"
| "edits _ = False"

fun recorded :: "op \<Rightarrow> state_manager \<Rightarrow> (string \<times> nat) list" where
  "recorded (RecordAction now ty bxs) s = (if current_state s = None then [] else [(ty, now)])"
| "recorded (DeleteSelected now) s = (if fst (deleteSelected now s) = 0 then [] else [(''delete'', now)])"
| "recorded (RestoreDeleted onlySelected now) s =
     (if fst (restoreDeleted onlySelected now s) = 0 then [] else [(''restore'', now)])"
| "recorded _ s = []"

fun journal :: "op list \<Rightarrow> state_manager \<Rightarrow> (string \<times> nat) list" where
  "journal [] s = []"
| "journal (c # cs) s = recorded c s @ journal cs (step c s)"

definition has_live :: "state_manager \<Rightarrow> bool" where
  "has_live s \<longleftrightarrow>
     (case current_state s of
        None \<Rightarrow> False
      | Some st \<Rightarrow> \<exists>b\<in>set (boxes st). \<not> deleted (cells (store s) b))"

definition delete_restore_pair :: "nat \<times> nat \<Rightarrow> op list" where
  "delete_restore_pair t = [SelectAll, DeleteSelected (fst t), RestoreDeleted False (snd t)]"

definition pair_stamps :: "nat \<times> nat \<Rightarrow> (string \<times> nat) list" where
  "pair_stamps t = [(''delete'', fst t), (''restore'', snd t)]"

definition sixty_stamps :: "(nat \<times> nat) list" where
  "sixty_stamps = map (\<lambda>k. (2 * k, 2 * k + 1)) [0..<60]"

definition working_view :: "state_manager \<Rightarrow> int \<Rightarrow> box list option" where
  "working_view s i = map_option (\<lambda>st. map (cells (store s)) (boxes st)) (imageStates s i)"

definition snapshot_view :: "state_manager \<Rightarrow> int \<Rightarrow> box list option" where
  "snapshot_view s i =
     map_option (\<lambda>st. map (cells (store s)) (originalBoxes st)) (imageStates s i)"

definition action_view :: "heap \<Rightarrow> action \<Rightarrow> string \<times> box list \<times> nat" where
  "action_view h a = (action_type a, map (cells h) (action_boxes a), timestamp a)"

definition stacks_view ::
  "state_manager \<Rightarrow> int \<Rightarrow> ((string \<times> box list \<times> nat) list \<times> (string \<times> box list \<times> nat) list) option" where
  "stacks_view s i =
     map_option (\<lambda>st. (map (action_view (store s)) (undoStack st),
                        map (action_view (store s)) (redoStack st))) (imageStates s i)"

definition kept_refs :: "image_state \<Rightarrow> ref set" where
  "kept_refs st =
     set (originalBoxes st) \<union> (\<Union>a\<in>set (undoStack st) \<union> set (redoStack st). set (action_boxes a))"

definition separated :: "state_manager \<Rightarrow> bool" where
  "separated s \<longleftrightarrow>
     (\<forall>i st j st'. imageStates s i = Some st \<and> imageStates s j = Some st' \<longrightarrow>
        set (boxes st) \<inter> kept_refs st' = {})"

definition refs_allocated :: "state_manager \<Rightarrow> bool" where
  "refs_allocated s \<longleftrightarrow>
     (\<forall>i st. imageStates s i = Some st \<longrightarrow>
        (\<forall>r\<in>set (boxes st) \<union> kept_refs st. r < next_ref (store s)))"

definition owns_apart :: "state_manager \<Rightarrow> bool" where
  "owns_apart s \<longleftrightarrow> refs_allocated s \<and> separated s"

definition select_a :: op where
  "select_a = Assign 2 (box_a\<lparr>selected := True\<rparr>)"

subsection \<open>Properties of the store and of the manager\<close>

lemma cloneBoxes_refs:
  "cloneBoxes rs h = (rs', h') \<Longrightarrow>
   rs' = [next_ref h ..< next_ref h + length rs] \<and> next_ref h' = next_ref h + length rs"
proof (induction rs arbitrary: h rs' h')
  case Nil
  then show ?case by simp
next
  case (Cons r rs)
  obtain rs2 h2 where c: "cloneBoxes rs (snd (cloneBox r h)) = (rs2, h2)"
    by (cases "cloneBoxes rs (snd (cloneBox r h))")
  have n1: "next_ref (snd (cloneBox r h)) = Suc (next_ref h)"
    by (simp add: cloneBox_def alloc_def)
  from Cons.IH[OF c] have rs2: "rs2 = [Suc (next_ref h) ..< Suc (next_ref h) + length rs]"
    and n2: "next_ref h2 = Suc (next_ref h) + length rs"
    by (simp_all add: n1)
  from Cons.prems c have e: "rs' = next_ref h # rs2" "h' = h2"
    by (auto simp: cloneBox_def alloc_def Let_def)
  have "[next_ref h ..< Suc (next_ref h + length rs)]
      = next_ref h # [Suc (next_ref h) ..< Suc (next_ref h + length rs)]"
    by (rule upt_conv_Cons) simp
  then show ?case using e n2 rs2 by (simp del: upt_Suc)
qed



lemma cells_set_deleted:
  "cells (set_deleted d b h) r = (if r = b then (cells h b)\<lparr>deleted := d\<rparr> else cells h r)"
  by (simp add: set_deleted_def)

lemma cells_set_selected:
  "cells (set_selected v b h) r = (if r = b then (cells h b)\<lparr>selected := v\<rparr> else cells h r)"
  by (simp add: set_selected_def)

lemma next_ref_set [simp]:
  "next_ref (set_deleted d b h) = next_ref h" "next_ref (set_selected v b h) = next_ref h"
  by (simp_all add: set_deleted_def set_selected_def)

lemma cells_mark_all:
  "cells (mark_all d bs h) r =
     (if r \<in> set bs then (cells h r)\<lparr>deleted := d, selected := False\<rparr> else cells h r)"
  by (induction bs arbitrary: h) (auto simp: cells_set_deleted cells_set_selected)

lemma next_ref_mark_all [simp]: "next_ref (mark_all d bs h) = next_ref h"
  by (induction bs arbitrary: h) auto

lemma find_by_id_cong:
  "\<forall>r\<in>set bs. box_id (cells h' r) = box_id (cells h r) \<Longrightarrow>
   find_by_id h' bs i = find_by_id h bs i"
  by (induction bs) (auto simp: find_by_id_def)


lemma find_by_id_None:
  "find_by_id h bs i = None \<longleftrightarrow> (\<forall>b\<in>set bs. box_id (cells h b) \<noteq> i)"
  by (induction bs) (auto simp: find_by_id_def)


lemma replay_effect:
  "cells (replay d saved bs h) r =
     (if r \<in> replay_targets h saved bs
      then (cells h r)\<lparr>deleted := d, selected := False\<rparr> else cells h r)
   \<and> next_ref (replay d saved bs h) = next_ref h"
proof (induction saved arbitrary: h)
  case Nil
  then show ?case by (simp add: replay_targets_def)
next
  case (Cons sv saved)
  define h1 where "h1 = (case find_by_id h bs (box_id (cells h sv)) of
          None \<Rightarrow> h | Some b \<Rightarrow> set_selected False b (set_deleted d b h))"
  have ids: "box_id (cells h1 x) = box_id (cells h x)" for x
    by (simp add: h1_def cells_set_deleted cells_set_selected split: option.splits)
  have t: "replay_targets h1 saved bs = replay_targets h saved bs"
    using find_by_id_cong[of bs h1 h] by (simp add: replay_targets_def ids)
  have t2: "replay_targets h (sv # saved) bs =
      (case find_by_id h bs (box_id (cells h sv)) of None \<Rightarrow> {} | Some b \<Rightarrow> {b})
        \<union> replay_targets h saved bs"
    by (auto simp: replay_targets_def split: option.splits)
  have c1: "cells h1 r = (case find_by_id h bs (box_id (cells h sv)) of
       None \<Rightarrow> cells h r
     | Some b \<Rightarrow> if r = b then (cells h r)\<lparr>deleted := d, selected := False\<rparr> else cells h r)"
    by (simp add: h1_def cells_set_deleted cells_set_selected split: option.splits)
  have n1: "next_ref h1 = next_ref h" by (simp add: h1_def split: option.splits)
  have "replay d (sv # saved) bs h = replay d saved bs h1" by (simp add: h1_def)
  then show ?case
    using Cons.IH[of h1] by (auto simp: t t2 c1 n1 split: option.splits)
qed

lemma current_state_put [simp]: "current_state (put_state st s) = Some st"
  by (simp add: current_state_def put_state_def)

lemma current_state_store [simp]: "current_state (s\<lparr>store := h\<rparr>) = current_state s"
  by (simp add: current_state_def)

lemma current_state_modified [simp]:
  "current_state (s\<lparr>globalModified := m\<rparr>) = current_state s"
  by (simp add: current_state_def)

lemma updateModifiedState_frame [simp]:
  "store (updateModifiedState s) = store s"
  "current_state (updateModifiedState s) = current_state s"
  "currentIndex (updateModifiedState s) = currentIndex s"
  "imageStates (updateModifiedState s) = imageStates s"
  by (simp_all add: updateModifiedState_def current_state_def split: option.splits)

lemma put_state_frame [simp]:
  "store (put_state st s) = store s" "currentIndex (put_state st s) = currentIndex s"
  "globalModified (put_state st s) = globalModified s"
  by (simp_all add: put_state_def)


lemma undo_performed:
  assumes "current_state s = Some st" "undoStack st \<noteq> []"
  shows "undo s = (True, updateModifiedState
           ((put_state (st\<lparr>undoStack := butlast (undoStack st),
                             redoStack := redoStack st @ [last (undoStack st)]\<rparr>) s)
             \<lparr>store := undo_store st (store s)\<rparr>))"
  using assms by (simp add: undo_def undo_store_def Let_def)

lemma redo_performed:
  assumes "current_state s = Some st" "redoStack st \<noteq> []"
  shows "redo s = (True, updateModifiedState
           ((put_state (st\<lparr>redoStack := butlast (redoStack st),
                             undoStack := undoStack st @ [last (redoStack st)]\<rparr>) s)
             \<lparr>store := redo_store st (store s)\<rparr>))"
  using assms by (simp add: redo_def redo_store_def Let_def)

lemma undo_refused:
  "fst (undo s) \<Longrightarrow> \<exists>st. current_state s = Some st \<and> undoStack st \<noteq> []"
  by (auto simp: undo_def Let_def split: option.splits if_splits)

lemma redo_refused:
  "fst (redo s) \<Longrightarrow> \<exists>st. current_state s = Some st \<and> redoStack st \<noteq> []"
  by (auto simp: redo_def Let_def split: option.splits if_splits)







lemma set_selected_keeps:
  "box_id (cells (set_selected v b h) r) = box_id (cells h r)"
  "deleted (cells (set_selected v b h) r) = deleted (cells h r)"
  by (simp_all add: cells_set_selected)

lemma select_live_keeps:
  "next_ref (select_live bs h) = next_ref h \<and>
   box_id (cells (select_live bs h) r) = box_id (cells h r) \<and>
   deleted (cells (select_live bs h) r) = deleted (cells h r)"
  by (induction bs arbitrary: h) (auto simp: set_selected_keeps)

lemma deselect_all_keeps:
  "next_ref (deselect_all bs h) = next_ref h \<and>
   box_id (cells (deselect_all bs h) r) = box_id (cells h r) \<and>
   deleted (cells (deselect_all bs h) r) = deleted (cells h r)"
  by (induction bs arbitrary: h) (auto simp: set_selected_keeps)







lemma deleteSelected_refused:
  "fst (deleteSelected now s) \<noteq> 0 \<Longrightarrow>
   \<exists>st. current_state s = Some st \<and>
     filter (\<lambda>b. selected (cells (store s) b) \<and> \<not> deleted (cells (store s) b)) (boxes st) \<noteq> []"
  by (auto simp: deleteSelected_def Let_def split: option.splits if_splits)

lemma deleteSelected_performed:
  assumes st: "current_state s = Some st"
    and sel: "sel = filter (\<lambda>b. selected (cells (store s) b) \<and> \<not> deleted (cells (store s) b)) (boxes st)"
      "sel \<noteq> []"
    and c: "cloneBoxes sel (store s) = (bs, h1)"
  shows "\<exists>u. deleteSelected now s =
           (length sel,
            (put_state (st\<lparr>undoStack := u @ [\<lparr>action_type = ''delete'', action_boxes = bs,
                                               timestamp = now\<rparr>],
                           redoStack := []\<rparr>) s)
              \<lparr>store := mark_all True sel h1,
               globalModified := insert (currentIndex s) (globalModified s)\<rparr>)"
proof -
  let ?act = "\<lparr>action_type = ''delete'', action_boxes = bs, timestamp = now\<rparr>"
  let ?pushed = "undoStack st @ [?act]"
  have "\<exists>u. (if length ?pushed > maxStackSize then tl ?pushed else ?pushed) = u @ [?act]"
    by (cases "undoStack st") (auto simp: maxStackSize_def)
  then obtain u where u: "(if length ?pushed > maxStackSize then tl ?pushed else ?pushed) = u @ [?act]"
    by blast
  have r: "recordAction now ''delete'' sel s =
      (put_state (st\<lparr>undoStack := u @ [?act], redoStack := []\<rparr>) s)\<lparr>store := h1\<rparr>"
    using st c u by (simp add: recordAction_def Let_def)
  have "deleteSelected now s =
      (length sel, markModified ((recordAction now ''delete'' sel s)
          \<lparr>store := mark_all True sel (store (recordAction now ''delete'' sel s))\<rparr>))"
    using st sel by (simp add: deleteSelected_def Let_def)
  then show ?thesis
    unfolding r by (intro exI[of _ u]) (simp add: markModified_def put_state_def)
qed


lemma fresh_session_eval:
  "currentIndex fresh_session = -1" "imageStates fresh_session = Map.empty"
  "globalModified fresh_session = {}" "next_ref (store fresh_session) = 2"
  "cells (store fresh_session) 0 = box_a" "cells (store fresh_session) (Suc 0) = box_b"
  by (simp_all add: fresh_session_def new_state_manager_def empty_heap_def alloc_def)

lemma demo_session_eval:
  "currentIndex demo_session = 0"
  "imageStates demo_session = [0 \<mapsto> \<lparr>boxes = [2, 3], originalBoxes = [4, 5], undoStack = [], redoStack = []\<rparr>]"
  "globalModified demo_session = {}" "next_ref (store demo_session) = 6"
  "cells (store demo_session) 2 = box_a" "cells (store demo_session) 3 = box_b"
  "cells (store demo_session) 4 = box_a" "cells (store demo_session) 5 = box_b"
  by (simp_all add: demo_session_def initImageState_def fresh_session_eval cloneBox_def alloc_def
      Let_def)

text \<open>
  Claim C8. When the current image has no state, or its undo stack is empty, \<^verbatim>\<open>undo()\<close>
  returns false and the whole session, manager and store, is what it was; likewise
  \<^verbatim>\<open>redo()\<close> with no state or an empty redo stack. Neither raises: both are total
  functions that return a boolean and a session.
\<close>

theorem undo_redo_on_empty_stack:
  "((current_state s = None \<or> (\<exists>st. current_state s = Some st \<and> undoStack st = [])) \<longrightarrow>
      undo s = (False, s))
   \<and> ((current_state s = None \<or> (\<exists>st. current_state s = Some st \<and> redoStack st = [])) \<longrightarrow>
      redo s = (False, s))"
  by (auto simp: undo_def redo_def)

theorem undo_redo_on_empty_stack_witness:
  "current_state fresh_session = None
   \<and> undo fresh_session = (False, fresh_session) \<and> redo fresh_session = (False, fresh_session)
   \<and> (\<exists>st. current_state demo_session = Some st \<and> undoStack st = [] \<and> redoStack st = [])
   \<and> undo demo_session = (False, demo_session) \<and> redo demo_session = (False, demo_session)"
proof -
  have f: "current_state fresh_session = None"
    by (simp add: current_state_def fresh_session_eval)
  have d: "\<exists>st. current_state demo_session = Some st \<and> undoStack st = [] \<and> redoStack st = []"
    by (simp add: current_state_def demo_session_eval)
  from undo_redo_on_empty_stack[of fresh_session] f
  have "undo fresh_session = (False, fresh_session)" "redo fresh_session = (False, fresh_session)"
    by simp_all
  moreover from undo_redo_on_empty_stack[of demo_session] d
  have "undo demo_session = (False, demo_session)" "redo demo_session = (False, demo_session)"
    by blast+
  ultimately show ?thesis using f d by simp
qed

lemma replay_cells:
  "cells (replay d saved bs h) r =
     (if \<exists>sv\<in>set saved. find_by_id h bs (box_id (cells h sv)) = Some r
      then (cells h r)\<lparr>deleted := d, selected := False\<rparr> else cells h r)"
  using replay_effect[of d saved bs h r] by (simp add: replay_targets_def)

text \<open>
  Claim C10, as amended. For every action on top of the undo stack, \<^verbatim>\<open>undo()\<close> returns
  true, moves the action to the redo stack, and writes the store as follows: a box \<open>r\<close>
  has \<^verbatim>\<open>deleted\<close> assigned and \<^verbatim>\<open>selected\<close> cleared exactly when the action is a
  \<^verbatim>\<open>'delete'\<close> or a \<^verbatim>\<open>'restore'\<close> and \<open>r\<close> is the first box of the working collection
  with the id of some box saved in the action; every other object is left as it was. A saved
  box whose id no box of the working collection has finds nothing and is passed over. The
  flag is assigned, not flipped: it becomes the value before the action, false when a delete
  is undone, true when a restore is undone, whatever it was; so it changes only on a box that
  still holds the action's effect. \<^verbatim>\<open>redo()\<close> is the same with the redo stack and the
  opposite value. An action of another type writes no box, so the matched boxes keep both
  \<^verbatim>\<open>deleted\<close> and \<^verbatim>\<open>selected\<close>, and is moved and answered with true all the same.
\<close>

theorem replay_skips_missing_boxes:
  assumes "current_state s = Some st"
  shows
    "(undoStack st \<noteq> [] \<longrightarrow>
        (let act = last (undoStack st); s' = snd (undo s) in
           fst (undo s) \<and>
           (\<forall>r. cells (store s') r =
              (if action_type act \<in> {''delete'', ''restore''} \<and>
                  (\<exists>sv\<in>set (action_boxes act).
                     find_by_id (store s) (boxes st) (box_id (cells (store s) sv)) = Some r)
               then (cells (store s) r)\<lparr>deleted := (action_type act = ''restore''),
                                         selected := False\<rparr>
               else cells (store s) r)) \<and>
           current_state s' =
             Some (st\<lparr>undoStack := butlast (undoStack st), redoStack := redoStack st @ [act]\<rparr>)))
     \<and> (redoStack st \<noteq> [] \<longrightarrow>
        (let act = last (redoStack st); s' = snd (redo s) in
           fst (redo s) \<and>
           (\<forall>r. cells (store s') r =
              (if action_type act \<in> {''delete'', ''restore''} \<and>
                  (\<exists>sv\<in>set (action_boxes act).
                     find_by_id (store s) (boxes st) (box_id (cells (store s) sv)) = Some r)
               then (cells (store s) r)\<lparr>deleted := (action_type act = ''delete''),
                                         selected := False\<rparr>
               else cells (store s) r)) \<and>
           current_state s' =
             Some (st\<lparr>redoStack := butlast (redoStack st), undoStack := undoStack st @ [act]\<rparr>)))
     \<and> (\<forall>sv. find_by_id (store s) (boxes st) (box_id (cells (store s) sv)) = None \<longleftrightarrow>
            (\<forall>b\<in>set (boxes st). box_id (cells (store s) b) \<noteq> box_id (cells (store s) sv)))"
proof (intro conjI impI)
  assume ne: "undoStack st \<noteq> []"
  show "let act = last (undoStack st); s' = snd (undo s) in
           fst (undo s) \<and>
           (\<forall>r. cells (store s') r =
              (if action_type act \<in> {''delete'', ''restore''} \<and>
                  (\<exists>sv\<in>set (action_boxes act).
                     find_by_id (store s) (boxes st) (box_id (cells (store s) sv)) = Some r)
               then (cells (store s) r)\<lparr>deleted := (action_type act = ''restore''),
                                         selected := False\<rparr>
               else cells (store s) r)) \<and>
           current_state s' =
             Some (st\<lparr>undoStack := butlast (undoStack st), redoStack := redoStack st @ [act]\<rparr>)"
    unfolding undo_performed[OF assms ne]
    by (simp add: Let_def undo_store_def replay_cells)
next
  assume ne: "redoStack st \<noteq> []"
  show "let act = last (redoStack st); s' = snd (redo s) in
           fst (redo s) \<and>
           (\<forall>r. cells (store s') r =
              (if action_type act \<in> {''delete'', ''restore''} \<and>
                  (\<exists>sv\<in>set (action_boxes act).
                     find_by_id (store s) (boxes st) (box_id (cells (store s) sv)) = Some r)
               then (cells (store s) r)\<lparr>deleted := (action_type act = ''delete''),
                                         selected := False\<rparr>
               else cells (store s) r)) \<and>
           current_state s' =
             Some (st\<lparr>redoStack := butlast (redoStack st), undoStack := undoStack st @ [act]\<rparr>)"
    unfolding redo_performed[OF assms ne]
    by (simp add: Let_def redo_store_def replay_cells)
next
  show "\<forall>sv. find_by_id (store s) (boxes st) (box_id (cells (store s) sv)) = None \<longleftrightarrow>
            (\<forall>b\<in>set (boxes st). box_id (cells (store s) b) \<noteq> box_id (cells (store s) sv))"
    by (simp add: find_by_id_None)
qed



lemma replaced_session_eval:
  "current_state replaced_session =
     Some \<lparr>boxes = [8], originalBoxes = [4, 5],
       undoStack = [\<lparr>action_type = ''delete'', action_boxes = [6, 7], timestamp = 7\<rparr>],
       redoStack = []\<rparr>"
  "box_id (cells (store replaced_session) 6) = ''a''"
  "box_id (cells (store replaced_session) 7) = ''b''"
  "box_id (cells (store replaced_session) 8) = ''b''"
  "deleted (cells (store replaced_session) 8)"
  by code_simp+

lemma undone_session_eval:
  "current_state undone_session =
     Some \<lparr>boxes = [8], originalBoxes = [4, 5], undoStack = [],
       redoStack = [\<lparr>action_type = ''delete'', action_boxes = [6, 7], timestamp = 7\<rparr>]\<rparr>"
  "box_id (cells (store undone_session) 6) = ''a''"
  "box_id (cells (store undone_session) 7) = ''b''"
  "box_id (cells (store undone_session) 8) = ''b''"
  by code_simp+

theorem replay_skips_missing_boxes_witness:
  "(\<exists>st. current_state replaced_session = Some st \<and> undoStack st \<noteq> [] \<and>
         set (action_boxes (last (undoStack st))) = {6, 7} \<and> boxes st = [8])
   \<and> find_by_id (store replaced_session) [8] (box_id (cells (store replaced_session) 6)) = None
   \<and> find_by_id (store replaced_session) [8] (box_id (cells (store replaced_session) 7)) = Some 8
   \<and> fst (undo replaced_session)
   \<and> deleted (cells (store replaced_session) 8)
   \<and> cells (store (snd (undo replaced_session))) 8
        = (cells (store replaced_session) 8)\<lparr>deleted := False, selected := False\<rparr>
   \<and> cells (store (snd (undo replaced_session))) 2 = cells (store replaced_session) 2
   \<and> (\<exists>st. current_state undone_session = Some st \<and> redoStack st \<noteq> [])
   \<and> fst (redo undone_session)
   \<and> cells (store (snd (redo undone_session))) 8
        = (cells (store undone_session) 8)\<lparr>deleted := True, selected := False\<rparr>"
proof -
  note r = replaced_session_eval
  note u = undone_session_eval
  have f: "find_by_id (store replaced_session) [8] (box_id (cells (store replaced_session) 6)) = None"
    "find_by_id (store replaced_session) [8] (box_id (cells (store replaced_session) 7)) = Some 8"
    "find_by_id (store undone_session) [8] (box_id (cells (store undone_session) 6)) = None"
    "find_by_id (store undone_session) [8] (box_id (cells (store undone_session) 7)) = Some 8"
    by (simp_all add: find_by_id_def r u)
  from replay_skips_missing_boxes[OF r(1)]
  have a: "fst (undo replaced_session)"
    "cells (store (snd (undo replaced_session))) 8
        = (cells (store replaced_session) 8)\<lparr>deleted := False, selected := False\<rparr>"
    "cells (store (snd (undo replaced_session))) 2 = cells (store replaced_session) 2"
    by (simp_all add: Let_def f)
  from replay_skips_missing_boxes[OF u(1)]
  have b: "fst (redo undone_session)"
    "cells (store (snd (redo undone_session))) 8
        = (cells (store undone_session) 8)\<lparr>deleted := True, selected := False\<rparr>"
    by (simp_all add: Let_def f)
  show ?thesis using a b f r u by simp
qed

lemma reloaded_session_eval:
  "current_state reloaded_session =
     Some \<lparr>boxes = [8, 9], originalBoxes = [4, 5],
       undoStack = [\<lparr>action_type = ''delete'', action_boxes = [6, 7], timestamp = 7\<rparr>],
       redoStack = []\<rparr>"
  "find_by_id (store reloaded_session) [8, 9] (box_id (cells (store reloaded_session) 6)) = Some 8"
  "find_by_id (store reloaded_session) [8, 9] (box_id (cells (store reloaded_session) 7)) = Some 9"
  "\<not> deleted (cells (store reloaded_session) 8)"
  "\<not> deleted (cells (store reloaded_session) 9)"
  "fst (undo reloaded_session)"
  "\<not> deleted (cells (store (snd (undo reloaded_session))) 8)"
  "\<not> deleted (cells (store (snd (undo reloaded_session))) 9)"
  by code_simp+

lemma moved_session_eval:
  "current_state moved_session =
     Some \<lparr>boxes = [2, 3], originalBoxes = [4, 5],
       undoStack = [\<lparr>action_type = ''move'', action_boxes = [6], timestamp = 9\<rparr>],
       redoStack = []\<rparr>"
  "find_by_id (store moved_session) [2, 3] (box_id (cells (store moved_session) 6)) = Some 2"
  "selected (cells (store moved_session) 2)"
  "fst (undo moved_session)"
  "selected (cells (store (snd (undo moved_session))) 2)"
  "\<not> deleted (cells (store moved_session) 2)"
  "\<not> deleted (cells (store (snd (undo moved_session))) 2)"
  by code_simp+

text \<open>
  The claim as first worded, with the flag toggled and the selection cleared for every
  action, fails in two sessions. In the first, both boxes are deleted and the caller then
  hands the two boxes, not deleted, back with \<^verbatim>\<open>setCurrentBoxes\<close>: the \<^verbatim>\<open>undo()\<close> of the
  delete finds both boxes by id and leaves \<^verbatim>\<open>deleted\<close> false on both. In the second, a
  \<^verbatim>\<open>'move'\<close> action is recorded for a selected box: its \<^verbatim>\<open>undo()\<close> returns true and the
  box, found by id, is still selected and still not deleted.
\<close>

theorem replay_toggles_flag_counterexample:
  "(\<exists>st. current_state reloaded_session = Some st \<and> boxes st = [8, 9] \<and>
       stamps (undoStack st) = [(''delete'', 7)] \<and>
       action_boxes (last (undoStack st)) = [6, 7])
   \<and> find_by_id (store reloaded_session) [8, 9] (box_id (cells (store reloaded_session) 6)) = Some 8
   \<and> find_by_id (store reloaded_session) [8, 9] (box_id (cells (store reloaded_session) 7)) = Some 9
   \<and> fst (undo reloaded_session)
   \<and> \<not> deleted (cells (store reloaded_session) 8)
   \<and> \<not> deleted (cells (store (snd (undo reloaded_session))) 8)
   \<and> \<not> deleted (cells (store reloaded_session) 9)
   \<and> \<not> deleted (cells (store (snd (undo reloaded_session))) 9)
   \<and> (\<exists>st. current_state moved_session = Some st \<and> boxes st = [2, 3] \<and>
       stamps (undoStack st) = [(''move'', 9)] \<and>
       action_boxes (last (undoStack st)) = [6])
   \<and> find_by_id (store moved_session) [2, 3] (box_id (cells (store moved_session) 6)) = Some 2
   \<and> fst (undo moved_session)
   \<and> selected (cells (store moved_session) 2)
   \<and> selected (cells (store (snd (undo moved_session))) 2)
   \<and> \<not> deleted (cells (store moved_session) 2)
   \<and> \<not> deleted (cells (store (snd (undo moved_session))) 2)"
  by (simp add: reloaded_session_eval moved_session_eval stamps_def)




lemma cloneBoxes_length: "cloneBoxes rs h = (rs', h') \<Longrightarrow> length rs' = length rs"
  by (induction rs arbitrary: h rs' h') (auto simp: Let_def split: prod.splits)

lemma stacks_bounded_store [simp]: "stacks_bounded (s\<lparr>store := h\<rparr>) = stacks_bounded s"
  by (simp add: stacks_bounded_def)

lemma stacks_bounded_modified [simp]: "stacks_bounded (s\<lparr>globalModified := m\<rparr>) = stacks_bounded s"
  by (simp add: stacks_bounded_def)

lemma stacks_bounded_index [simp]: "stacks_bounded (s\<lparr>currentIndex := i\<rparr>) = stacks_bounded s"
  by (simp add: stacks_bounded_def)

lemma stacks_bounded_put:
  "stacks_bounded s \<Longrightarrow> length (undoStack st) + length (redoStack st) \<le> maxStackSize \<Longrightarrow>
   stacks_bounded (put_state st s)"
  by (simp add: stacks_bounded_def put_state_def)

lemma stacks_bounded_current:
  "stacks_bounded s \<Longrightarrow> current_state s = Some st \<Longrightarrow>
   length (undoStack st) + length (redoStack st) \<le> maxStackSize"
  by (simp add: stacks_bounded_def current_state_def)

lemma stacks_bounded_updateModifiedState [simp]:
  "stacks_bounded (updateModifiedState s) = stacks_bounded s"
  by (simp add: updateModifiedState_def split: option.splits)

lemma stacks_bounded_recordAction:
  assumes "stacks_bounded s"
  shows "stacks_bounded (recordAction now ty bs s)"
proof (cases "current_state s")
  case None
  then show ?thesis using assms by (simp add: recordAction_def)
next
  case (Some st)
  from assms Some have "length (undoStack st) + length (redoStack st) \<le> maxStackSize"
    by (rule stacks_bounded_current)
  then show ?thesis using assms
    by (auto simp: recordAction_def Some Let_def split: prod.splits intro!: stacks_bounded_put)
qed

lemma stacks_bounded_undo:
  assumes "stacks_bounded s"
  shows "stacks_bounded (snd (undo s))"
proof (cases "current_state s")
  case None
  then show ?thesis using assms by (simp add: undo_def)
next
  case (Some st)
  from assms Some have "length (undoStack st) + length (redoStack st) \<le> maxStackSize"
    by (rule stacks_bounded_current)
  then have "length (butlast (undoStack st)) + length (redoStack st @ [last (undoStack st)])
      \<le> maxStackSize" if "undoStack st \<noteq> []"
    using that by (cases "undoStack st" rule: rev_cases) auto
  then show ?thesis using assms
    by (auto simp: undo_def Some Let_def simp del: length_butlast intro!: stacks_bounded_put)
qed

lemma stacks_bounded_redo:
  assumes "stacks_bounded s"
  shows "stacks_bounded (snd (redo s))"
proof (cases "current_state s")
  case None
  then show ?thesis using assms by (simp add: redo_def)
next
  case (Some st)
  from assms Some have "length (undoStack st) + length (redoStack st) \<le> maxStackSize"
    by (rule stacks_bounded_current)
  then have "length (butlast (redoStack st)) + length (undoStack st @ [last (redoStack st)])
      \<le> maxStackSize" if "redoStack st \<noteq> []"
    using that by (cases "redoStack st" rule: rev_cases) auto
  then show ?thesis using assms
    by (auto simp: redo_def Some Let_def simp del: length_butlast intro!: stacks_bounded_put)
qed

lemma stacks_bounded_deleteSelected:
  "stacks_bounded s \<Longrightarrow> stacks_bounded (snd (deleteSelected now s))"
  by (simp add: deleteSelected_def Let_def markModified_def stacks_bounded_recordAction
      split: option.splits)

lemma stacks_bounded_restoreDeleted:
  "stacks_bounded s \<Longrightarrow> stacks_bounded (snd (restoreDeleted b now s))"
  by (simp add: restoreDeleted_def Let_def markModified_def stacks_bounded_recordAction
      split: option.splits)

lemma stacks_bounded_markSaved: "stacks_bounded s \<Longrightarrow> stacks_bounded (markSaved s)"
  by (auto simp: markSaved_def Let_def split: option.splits prod.splits
      intro!: stacks_bounded_put)

lemma stacks_bounded_step: "stacks_bounded s \<Longrightarrow> stacks_bounded (step c s)"
proof (cases c)
  case (InitImageState i bxs)
  assume "stacks_bounded s"
  then show ?thesis
    by (auto simp: InitImageState initImageState_def stacks_bounded_def Let_def
        split: prod.splits)
next
  case (SetCurrentBoxes bxs)
  assume b: "stacks_bounded s"
  show ?thesis
  proof (cases "current_state s")
    case None
    then show ?thesis using b by (simp add: SetCurrentBoxes setCurrentBoxes_def)
  next
    case (Some st)
    from b Some have "length (undoStack st) + length (redoStack st) \<le> maxStackSize"
      by (rule stacks_bounded_current)
    then show ?thesis using b
      by (auto simp: SetCurrentBoxes setCurrentBoxes_def Some Let_def split: prod.splits
          intro!: stacks_bounded_put)
  qed
next
  case (MarkSavedAt i)
  assume "stacks_bounded s"
  then show ?thesis
    using stacks_bounded_markSaved[of "s\<lparr>currentIndex := i\<rparr>"]
    by (simp add: MarkSavedAt markSavedAt_def Let_def)
next
  case ResetCurrent
  assume "stacks_bounded s"
  then show ?thesis
    by (auto simp: ResetCurrent resetCurrent_def Let_def split: option.splits prod.splits
        intro!: stacks_bounded_put)
next
  case (ClearImageState i)
  assume "stacks_bounded s"
  then show ?thesis
    by (auto simp: ClearImageState clearImageState_def stacks_bounded_def)
next
  case ClearAll
  then show ?thesis by (simp add: clearAll_def stacks_bounded_def)
qed (auto simp: stacks_bounded_recordAction stacks_bounded_undo stacks_bounded_redo
    stacks_bounded_deleteSelected stacks_bounded_restoreDeleted stacks_bounded_markSaved
    setCurrentIndex_def selectAll_def clearSelection_def toggleBoxSelection_def selectBox_def
    markModified_def Let_def split: option.splits)

lemma stacks_bounded_run: "stacks_bounded s \<Longrightarrow> stacks_bounded (run cs s)"
  by (induction cs arbitrary: s) (auto simp: stacks_bounded_step)

lemma stacks_bounded_new: "stacks_bounded (new_state_manager h)"
  by (simp add: stacks_bounded_def new_state_manager_def)

lemma recordAction_current:
  assumes "current_state s = Some st"
  shows "current_state (recordAction now ty bs s) =
           Some (st\<lparr>undoStack :=
                      (if length (undoStack st) < maxStackSize then undoStack st
                       else tl (undoStack st @
                              [\<lparr>action_type = ty, action_boxes = fst (cloneBoxes bs (store s)),
                                timestamp = now\<rparr>]))
                      @ (if length (undoStack st) < maxStackSize then
                          [\<lparr>action_type = ty, action_boxes = fst (cloneBoxes bs (store s)),
                                timestamp = now\<rparr>] else []),
                    redoStack := []\<rparr>)"
  using assms by (auto simp: recordAction_def Let_def split: prod.splits)

lemma last_n_snoc_full:
  "length xs = n \<Longrightarrow> 0 < n \<Longrightarrow> last_n n (xs @ [x]) = tl xs @ [x]"
  by (cases xs) (auto simp: last_n_def)

lemma last_n_short: "length xs \<le> n \<Longrightarrow> last_n n xs = xs"
  by (simp add: last_n_def)

lemma last_n_last_n_append: "last_n n (last_n n xs @ ys) = last_n n (xs @ ys)"
  by (cases "length xs \<le> n") (auto simp: last_n_def add.commute)

lemma length_last_n: "length (last_n n xs) \<le> n"
  by (simp add: last_n_def)

lemma recordAction_stamps:
  assumes "current_state s = Some st" "length (undoStack st) \<le> maxStackSize"
  shows "\<exists>st'. current_state (recordAction now ty bs s) = Some st' \<and>
           stamps (undoStack st') = last_n maxStackSize (stamps (undoStack st) @ [(ty, now)]) \<and>
           redoStack st' = []"
proof (cases "length (undoStack st) < maxStackSize")
  case True
  then show ?thesis
    using recordAction_current[OF assms(1), of now ty bs]
    by (simp add: stamps_def last_n_short)
next
  case False
  with assms have full: "length (undoStack st) = maxStackSize" by simp
  then obtain a rest where u: "undoStack st = a # rest"
    by (cases "undoStack st") (auto simp: maxStackSize_def)
  show ?thesis
    using recordAction_current[OF assms(1), of now ty bs] full
      last_n_snoc_full[of "stamps (undoStack st)" maxStackSize "(ty, now)"]
    by (simp add: stamps_def u maxStackSize_def)
qed

lemma current_state_recordAction_None:
  "current_state s = None \<Longrightarrow> recordAction now ty bs s = s"
  by (simp add: recordAction_def)

lemma deleteSelected_cases:
  "(fst (deleteSelected now s) = 0 \<and> snd (deleteSelected now s) = s) \<or>
   (fst (deleteSelected now s) \<noteq> 0 \<and> current_state s \<noteq> None \<and>
    (\<exists>sel. current_state (snd (deleteSelected now s)) = current_state (recordAction now ''delete'' sel s)))"
  by (auto simp: deleteSelected_def Let_def markModified_def current_state_def split: option.splits)

lemma restoreDeleted_cases:
  "(fst (restoreDeleted b now s) = 0 \<and> snd (restoreDeleted b now s) = s) \<or>
   (fst (restoreDeleted b now s) \<noteq> 0 \<and> current_state s \<noteq> None \<and>
    (\<exists>sel. current_state (snd (restoreDeleted b now s)) = current_state (recordAction now ''restore'' sel s)))"
  by (auto simp: restoreDeleted_def Let_def markModified_def current_state_def split: option.splits)

lemma step_edit_stamps:
  assumes "current_state s = Some st" "length (undoStack st) \<le> maxStackSize" "edits c"
  shows "\<exists>st'. current_state (step c s) = Some st' \<and>
           stamps (undoStack st') = last_n maxStackSize (stamps (undoStack st) @ recorded c s) \<and>
           redoStack st' = (if recorded c s = [] then redoStack st else [])"
proof -
  have same: "\<exists>st'. current_state s' = Some st' \<and>
           stamps (undoStack st') = last_n maxStackSize (stamps (undoStack st) @ []) \<and>
           redoStack st' = redoStack st"
    if "current_state s' = current_state s" for s'
    using that assms(1,2) by (simp add: last_n_short stamps_def)
  show ?thesis
  proof (cases c)
    case (RecordAction now ty bxs)
    then show ?thesis using recordAction_stamps[OF assms(1,2), of now ty bxs] assms(1) by simp
  next
    case (DeleteSelected now)
    from deleteSelected_cases[of now s] show ?thesis
    proof
      assume "fst (deleteSelected now s) = 0 \<and> snd (deleteSelected now s) = s"
      then show ?thesis using same[of s] by (simp add: DeleteSelected)
    next
      assume a: "fst (deleteSelected now s) \<noteq> 0 \<and> current_state s \<noteq> None \<and>
        (\<exists>sel. current_state (snd (deleteSelected now s)) = current_state (recordAction now ''delete'' sel s))"
      then obtain sel where "current_state (snd (deleteSelected now s)) = current_state (recordAction now ''delete'' sel s)"
        by blast
      then show ?thesis
        using recordAction_stamps[OF assms(1,2), of now "''delete''" sel] a
        by (simp add: DeleteSelected)
    qed
  next
    case (RestoreDeleted b now)
    from restoreDeleted_cases[of b now s] show ?thesis
    proof
      assume "fst (restoreDeleted b now s) = 0 \<and> snd (restoreDeleted b now s) = s"
      then show ?thesis using same[of s] by (simp add: RestoreDeleted)
    next
      assume a: "fst (restoreDeleted b now s) \<noteq> 0 \<and> current_state s \<noteq> None \<and>
        (\<exists>sel. current_state (snd (restoreDeleted b now s)) = current_state (recordAction now ''restore'' sel s))"
      then obtain sel where "current_state (snd (restoreDeleted b now s)) = current_state (recordAction now ''restore'' sel s)"
        by blast
      then show ?thesis
        using recordAction_stamps[OF assms(1,2), of now "''restore''" sel] a
        by (simp add: RestoreDeleted)
    qed
  qed (use assms(3) same in \<open>auto simp: selectAll_def clearSelection_def toggleBoxSelection_def
        selectBox_def markModified_def current_state_def Let_def split: option.splits\<close>)
qed

lemma run_edits_stamps:
  assumes "current_state s = Some st" "length (undoStack st) \<le> maxStackSize" "list_all edits cs"
  shows "\<exists>st'. current_state (run cs s) = Some st' \<and>
           stamps (undoStack st') = last_n maxStackSize (stamps (undoStack st) @ journal cs s) \<and>
           redoStack st' = (if journal cs s = [] then redoStack st else [])"
  using assms
proof (induction cs arbitrary: s st)
  case Nil
  then show ?case by (simp add: last_n_short stamps_def)
next
  case (Cons c cs)
  from Cons.prems have e: "edits c" and es: "list_all edits cs" by simp_all
  from step_edit_stamps[OF Cons.prems(1,2) e]
  obtain st1 where st1: "current_state (step c s) = Some st1"
    "stamps (undoStack st1) = last_n maxStackSize (stamps (undoStack st) @ recorded c s)"
    "redoStack st1 = (if recorded c s = [] then redoStack st else [])"
    by blast
  have len: "length (undoStack st1) \<le> maxStackSize"
    using length_last_n[of maxStackSize "stamps (undoStack st) @ recorded c s"] st1(2)
    by (metis length_map stamps_def)
  from Cons.IH[OF st1(1) len es]
  obtain st' where st': "current_state (run cs (step c s)) = Some st'"
    "stamps (undoStack st') = last_n maxStackSize (stamps (undoStack st1) @ journal cs (step c s))"
    "redoStack st' = (if journal cs (step c s) = [] then redoStack st1 else [])"
    by blast
  show ?case
    using st' st1(2,3) by (simp add: last_n_last_n_append)
qed

lemma recordAction_pushes:
  assumes "current_state s = Some st" "length (undoStack st) \<le> maxStackSize"
  shows "\<exists>act. action_type act = ty \<and> timestamp act = now \<and>
           current_state (recordAction now ty bs s) =
             Some (st\<lparr>undoStack :=
                        (if length (undoStack st) = maxStackSize then tl (undoStack st)
                         else undoStack st) @ [act],
                      redoStack := []\<rparr>)"
proof -
  obtain bs' h' where c: "cloneBoxes bs (store s) = (bs', h')" by (cases "cloneBoxes bs (store s)")
  let ?act = "\<lparr>action_type = ty, action_boxes = bs', timestamp = now\<rparr>"
  have "current_state (recordAction now ty bs s) =
             Some (st\<lparr>undoStack :=
                        (if length (undoStack st) = maxStackSize then tl (undoStack st)
                         else undoStack st) @ [?act],
                      redoStack := []\<rparr>)"
    using assms c by (cases "undoStack st") (auto simp: recordAction_def Let_def maxStackSize_def)
  then show ?thesis by (intro exI[of _ ?act]) simp
qed

lemma select_live_selects:
  "b \<in> set bs \<Longrightarrow> \<not> deleted (cells h b) \<Longrightarrow> selected (cells (select_live bs h) b)"
proof (induction bs arbitrary: h)
  case Nil
  then show ?case by simp
next
  case (Cons a bs)
  let ?h1 = "if \<not> deleted (cells h a) then set_selected True a h else h"
  have d: "\<not> deleted (cells ?h1 b)" using Cons.prems(2) by (simp add: set_selected_keeps)
  show ?case
  proof (cases "b \<in> set bs")
    case True
    then show ?thesis using Cons.IH[OF True d] by simp
  next
    case False
    with Cons.prems have ab: "a = b" by simp
    have keep: "selected (cells h' b) \<Longrightarrow> selected (cells (select_live bs h') b)" for h'
      using False
    proof (induction bs arbitrary: h')
      case Nil
      then show ?case by simp
    next
      case (Cons c cs)
      then show ?case by (auto simp: cells_set_selected)
    qed
    have "selected (cells ?h1 b)" using Cons.prems(2) ab by (simp add: cells_set_selected)
    then show ?thesis using keep[of ?h1] by simp
  qed
qed

lemma restoreDeleted_all_performed:
  assumes st: "current_state s = Some st"
    and sel: "sel = filter (\<lambda>b. deleted (cells (store s) b)) (boxes st)" "sel \<noteq> []"
    and c: "cloneBoxes sel (store s) = (bs, h1)"
  shows "\<exists>u. restoreDeleted False now s =
           (length sel,
            (put_state (st\<lparr>undoStack := u @ [\<lparr>action_type = ''restore'', action_boxes = bs,
                                               timestamp = now\<rparr>],
                           redoStack := []\<rparr>) s)
              \<lparr>store := mark_all False sel h1,
               globalModified := insert (currentIndex s) (globalModified s)\<rparr>)"
proof -
  let ?act = "\<lparr>action_type = ''restore'', action_boxes = bs, timestamp = now\<rparr>"
  let ?pushed = "undoStack st @ [?act]"
  have "\<exists>u. (if length ?pushed > maxStackSize then tl ?pushed else ?pushed) = u @ [?act]"
    by (cases "undoStack st") (auto simp: maxStackSize_def)
  then obtain u where u: "(if length ?pushed > maxStackSize then tl ?pushed else ?pushed) = u @ [?act]"
    by blast
  have r: "recordAction now ''restore'' sel s =
      (put_state (st\<lparr>undoStack := u @ [?act], redoStack := []\<rparr>) s)\<lparr>store := h1\<rparr>"
    using st c u by (simp add: recordAction_def Let_def)
  have "restoreDeleted False now s =
      (length sel, markModified ((recordAction now ''restore'' sel s)
          \<lparr>store := mark_all False sel (store (recordAction now ''restore'' sel s))\<rparr>))"
    using st sel by (simp add: restoreDeleted_def Let_def)
  then show ?thesis
    unfolding r by (intro exI[of _ u]) (simp add: markModified_def put_state_def)
qed

lemma pair_journal:
  assumes "has_live s"
  shows "journal (delete_restore_pair t) s = pair_stamps t \<and>
         has_live (run (delete_restore_pair t) s)"
proof -
  from assms obtain st b where st: "current_state s = Some st"
    and b: "b \<in> set (boxes st)" "\<not> deleted (cells (store s) b)"
    by (auto simp: has_live_def split: option.splits)
  \<comment> \<open>after \<^verbatim>\<open>selectAll\<close>\<close>
  define s1 where "s1 = selectAll s"
  have cs1: "current_state s1 = Some st" by (simp add: s1_def selectAll_def st)
  have h1: "store s1 = select_live (boxes st) (store s)" by (simp add: s1_def selectAll_def st)
  define sel where "sel = filter (\<lambda>b. selected (cells (store s1) b) \<and> \<not> deleted (cells (store s1) b)) (boxes st)"
  have "b \<in> set sel"
    using b select_live_selects[of b "boxes st" "store s"] select_live_keeps[of "boxes st" "store s" b]
    by (simp add: sel_def h1)
  then have ne: "sel \<noteq> []" by auto
  obtain bs hc where c: "cloneBoxes sel (store s1) = (bs, hc)" by (cases "cloneBoxes sel (store s1)")
  from deleteSelected_performed[OF cs1 sel_def ne c, of "fst t"]
  obtain u where d: "deleteSelected (fst t) s1 =
           (length sel,
            (put_state (st\<lparr>undoStack := u @ [\<lparr>action_type = ''delete'', action_boxes = bs,
                                               timestamp = fst t\<rparr>],
                           redoStack := []\<rparr>) s1)
              \<lparr>store := mark_all True sel hc,
               globalModified := insert (currentIndex s1) (globalModified s1)\<rparr>)"
    by blast
  \<comment> \<open>after \<^verbatim>\<open>deleteSelected\<close>\<close>
  define s2 where "s2 = snd (deleteSelected (fst t) s1)"
  have n1: "fst (deleteSelected (fst t) s1) \<noteq> 0" using ne by (simp add: d)
  obtain st2 where cs2: "current_state s2 = Some st2" and b2: "boxes st2 = boxes st"
    by (simp add: s2_def d)
  have h2: "store s2 = mark_all True sel hc" by (simp add: s2_def d)
  define res where "res = filter (\<lambda>b. deleted (cells (store s2) b)) (boxes st2)"
  have "b \<in> set res" using \<open>b \<in> set sel\<close> b(1) by (simp add: res_def h2 cells_mark_all b2)
  then have ne2: "res \<noteq> []" by auto
  obtain bs2 hc2 where c2: "cloneBoxes res (store s2) = (bs2, hc2)"
    by (cases "cloneBoxes res (store s2)")
  from restoreDeleted_all_performed[OF cs2 res_def ne2 c2, of "snd t"]
  obtain u2 where r: "restoreDeleted False (snd t) s2 =
           (length res,
            (put_state (st2\<lparr>undoStack := u2 @ [\<lparr>action_type = ''restore'', action_boxes = bs2,
                                               timestamp = snd t\<rparr>],
                           redoStack := []\<rparr>) s2)
              \<lparr>store := mark_all False res hc2,
               globalModified := insert (currentIndex s2) (globalModified s2)\<rparr>)"
    by blast
  have n2: "fst (restoreDeleted False (snd t) s2) \<noteq> 0" using ne2 by (simp add: r)
  \<comment> \<open>after \<^verbatim>\<open>restoreDeleted\<close>\<close>
  define s3 where "s3 = snd (restoreDeleted False (snd t) s2)"
  have "has_live s3"
    using \<open>b \<in> set res\<close> b(1)
    by (auto simp: s3_def r has_live_def cells_mark_all b2 intro!: bexI[of _ b])
  moreover have "run (delete_restore_pair t) s = s3"
    by (simp add: delete_restore_pair_def s3_def s2_def s1_def)
  moreover have "journal (delete_restore_pair t) s = pair_stamps t"
    using n1 n2 by (simp add: delete_restore_pair_def pair_stamps_def s1_def s2_def)
  ultimately show ?thesis by simp
qed

lemma journal_append: "journal (xs @ ys) s = journal xs s @ journal ys (run xs s)"
  by (induction xs arbitrary: s) auto

lemma run_append: "run (xs @ ys) s = run ys (run xs s)"
  by (induction xs arbitrary: s) auto

lemma pairs_journal:
  "has_live s \<Longrightarrow>
   journal (concat (map delete_restore_pair ts)) s = concat (map pair_stamps ts) \<and>
   has_live (run (concat (map delete_restore_pair ts)) s)"
proof (induction ts arbitrary: s)
  case Nil
  then show ?case by simp
next
  case (Cons t ts)
  from pair_journal[OF Cons.prems, of t]
  have j: "journal (delete_restore_pair t) s = pair_stamps t"
    and l: "has_live (run (delete_restore_pair t) s)" by simp_all
  from Cons.IH[OF l] show ?case by (simp add: journal_append run_append j)
qed

lemma pairs_edits: "list_all edits (concat (map delete_restore_pair ts))"
  by (induction ts) (simp_all add: delete_restore_pair_def)

lemma drop_pair_stamps:
  "drop (2 * k) (concat (map pair_stamps ts)) = concat (map pair_stamps (drop k ts))"
proof (induction ts arbitrary: k)
  case Nil
  then show ?case by simp
next
  case (Cons t ts)
  show ?case
  proof (cases k)
    case 0
    then show ?thesis by simp
  next
    case (Suc j)
    then show ?thesis using Cons.IH[of j] by (simp add: pair_stamps_def)
  qed
qed

lemma length_pair_stamps: "length (concat (map pair_stamps ts)) = 2 * length ts"
  by (induction ts) (simp_all add: pair_stamps_def)

lemma sixty_pairs:
  assumes "has_live s" "current_state s = Some st" "length (undoStack st) \<le> maxStackSize"
    "length ts = 60"
  shows "\<exists>st'. current_state (run (concat (map delete_restore_pair ts)) s) = Some st' \<and>
           stamps (undoStack st') = concat (map pair_stamps (drop 35 ts)) \<and>
           length (undoStack st') = 50 \<and> redoStack st' = []"
proof -
  let ?cs = "concat (map delete_restore_pair ts)"
  from pairs_journal[OF assms(1), of ts] have j: "journal ?cs s = concat (map pair_stamps ts)"
    by simp
  from run_edits_stamps[OF assms(2,3) pairs_edits[of ts]]
  obtain st' where st': "current_state (run ?cs s) = Some st'"
    "stamps (undoStack st') = last_n maxStackSize (stamps (undoStack st) @ journal ?cs s)"
    "redoStack st' = (if journal ?cs s = [] then redoStack st else [])"
    by blast
  have len: "length (concat (map pair_stamps ts)) = 120"
    using assms(4) by (simp add: length_pair_stamps)
  have "last_n maxStackSize (stamps (undoStack st) @ concat (map pair_stamps ts))
      = drop (2 * 35) (concat (map pair_stamps ts))"
    using len by (simp add: last_n_def maxStackSize_def)
  also have "\<dots> = concat (map pair_stamps (drop 35 ts))" by (rule drop_pair_stamps)
  finally have e: "stamps (undoStack st') = concat (map pair_stamps (drop 35 ts))"
    using st'(2) j by simp
  have "length (stamps (undoStack st')) = 50"
    unfolding e using assms(4) by (simp add: length_pair_stamps)
  then have "length (undoStack st') = 50" by (simp add: stamps_def)
  moreover have "journal ?cs s \<noteq> []"
  proof
    assume "journal ?cs s = []"
    then have "length (concat (map pair_stamps ts)) = 0" using j by (simp only: list.size)
    then show False using len by simp
  qed
  ultimately show ?thesis using st' e by auto
qed

text \<open>
  Claim C5. \<^verbatim>\<open>maxStackSize\<close> is 50. In every session reached from the constructor by any
  sequence of calls, each image holds at most 50 undo entries (and at most 50 redo entries).
  \<^verbatim>\<open>recordAction\<close> on an image with a full undo stack drops its oldest entry and appends
  the new action; it always empties the redo stack. Over any sequence of editing calls on the
  current image (selection, \<^verbatim>\<open>deleteSelected\<close>, \<^verbatim>\<open>restoreDeleted\<close>, \<^verbatim>\<open>recordAction\<close>,
  writes to boxes) the undo stack holds the last 50 of the entries it had followed by the
  actions recorded since, in order. After 60 rounds of selecting all, deleting the selection
  and restoring the deleted boxes, on an image with a box that is not deleted, the undo stack
  holds exactly the 50 actions of the last 25 rounds, and the redo stack is empty.
\<close>

theorem undo_stack_bound:
  "maxStackSize = 50
   \<and> (imageStates (run cs (new_state_manager h)) i = Some st \<longrightarrow>
        length (undoStack st) \<le> 50 \<and> length (redoStack st) \<le> 50)
   \<and> (current_state s = Some st0 \<and> length (undoStack st0) \<le> 50 \<longrightarrow>
        (\<exists>act. action_type act = ty \<and> timestamp act = now \<and>
           current_state (recordAction now ty bs s) =
             Some (st0\<lparr>undoStack :=
                         (if length (undoStack st0) = 50 then tl (undoStack st0)
                          else undoStack st0) @ [act],
                       redoStack := []\<rparr>)))
   \<and> (current_state s = Some st0 \<and> length (undoStack st0) \<le> 50 \<and> list_all edits es \<longrightarrow>
        (\<exists>st'. current_state (run es s) = Some st' \<and>
           stamps (undoStack st') = last_n 50 (stamps (undoStack st0) @ journal es s) \<and>
           redoStack st' = (if journal es s = [] then redoStack st0 else [])))
   \<and> (current_state s = Some st0 \<and> length (undoStack st0) \<le> 50 \<and> has_live s \<and>
       length ts = 60 \<longrightarrow>
        (\<exists>st'. current_state (run (concat (map delete_restore_pair ts)) s) = Some st' \<and>
           stamps (undoStack st') = concat (map pair_stamps (drop 35 ts)) \<and>
           length (undoStack st') = 50 \<and> redoStack st' = []))"
proof (intro conjI impI)
  show "maxStackSize = 50" by (simp add: maxStackSize_def)
next
  assume a: "imageStates (run cs (new_state_manager h)) i = Some st"
  have "stacks_bounded (run cs (new_state_manager h))"
    by (intro stacks_bounded_run stacks_bounded_new)
  with a have "length (undoStack st) + length (redoStack st) \<le> 50"
    by (auto simp: stacks_bounded_def maxStackSize_def)
  then show "length (undoStack st) \<le> 50" "length (redoStack st) \<le> 50" by simp_all
next
  assume "current_state s = Some st0 \<and> length (undoStack st0) \<le> 50"
  then show "\<exists>act. action_type act = ty \<and> timestamp act = now \<and>
           current_state (recordAction now ty bs s) =
             Some (st0\<lparr>undoStack :=
                         (if length (undoStack st0) = 50 then tl (undoStack st0)
                          else undoStack st0) @ [act],
                       redoStack := []\<rparr>)"
    using recordAction_pushes[of s st0 ty now bs] by (simp add: maxStackSize_def)
next
  assume "current_state s = Some st0 \<and> length (undoStack st0) \<le> 50 \<and> list_all edits es"
  then show "\<exists>st'. current_state (run es s) = Some st' \<and>
           stamps (undoStack st') = last_n 50 (stamps (undoStack st0) @ journal es s) \<and>
           redoStack st' = (if journal es s = [] then redoStack st0 else [])"
    using run_edits_stamps[of s st0 es] by (simp add: maxStackSize_def)
next
  assume "current_state s = Some st0 \<and> length (undoStack st0) \<le> 50 \<and> has_live s \<and>
       length ts = 60"
  then show "\<exists>st'. current_state (run (concat (map delete_restore_pair ts)) s) = Some st' \<and>
           stamps (undoStack st') = concat (map pair_stamps (drop 35 ts)) \<and>
           length (undoStack st') = 50 \<and> redoStack st' = []"
    using sixty_pairs[of s st0 ts] by (simp add: maxStackSize_def)
qed

theorem undo_stack_bound_witness:
  "(\<exists>st. imageStates (run [Create box_a, Create box_b, InitImageState 0 [0, 1], SelectAll,
             DeleteSelected 7, Undo, Redo] (new_state_manager empty_heap)) 0 = Some st \<and>
          length (undoStack st) \<le> 50 \<and> length (redoStack st) \<le> 50)
   \<and> (\<exists>st0. current_state demo_session = Some st0 \<and> length (undoStack st0) \<le> 50)
   \<and> has_live demo_session \<and> length sixty_stamps = 60
   \<and> list_all edits (concat (map delete_restore_pair sixty_stamps))
   \<and> (\<exists>st'. current_state (run (concat (map delete_restore_pair sixty_stamps)) demo_session)
              = Some st' \<and>
           stamps (undoStack st') = concat (map pair_stamps (drop 35 sixty_stamps)) \<and>
           hd (stamps (undoStack st')) = (''delete'', 70) \<and>
           last (stamps (undoStack st')) = (''restore'', 119) \<and>
           length (undoStack st') = 50 \<and> redoStack st' = [])
   \<and> (\<exists>st' act. current_state (recordAction 9 ''delete'' [2] demo_session) = Some st' \<and>
           undoStack st' = [act] \<and> timestamp act = 9 \<and> redoStack st' = [])"
proof -
  let ?cs = "[Create box_a, Create box_b, InitImageState 0 [0, 1], SelectAll,
             DeleteSelected 7, Undo, Redo]"
  define st where "st = \<lparr>boxes = [2, 3], originalBoxes = [4, 5],
     undoStack = [\<lparr>action_type = ''delete'', action_boxes = [6, 7], timestamp = 7\<rparr>],
     redoStack = []\<rparr>"
  have st: "imageStates (run ?cs (new_state_manager empty_heap)) 0 = Some st"
    unfolding st_def by code_simp
  define st0 where "st0 = \<lparr>boxes = [2, 3], originalBoxes = [4, 5], undoStack = [],
     redoStack = ([] :: action list)\<rparr>"
  have d: "current_state demo_session = Some st0" "length (undoStack st0) \<le> 50"
    by (simp_all add: current_state_def demo_session_eval st0_def)
  have l: "has_live demo_session" by code_simp
  have n: "length sixty_stamps = 60" by (simp add: sixty_stamps_def)
  have e: "list_all edits (concat (map delete_restore_pair sixty_stamps))" by (rule pairs_edits)
  note t = undo_stack_bound[of ?cs empty_heap 0 st demo_session st0 "''delete''" 9 "[2]" _
      sixty_stamps]
  note t2 = t[THEN conjunct2, THEN conjunct1]
  note t3 = t[THEN conjunct2, THEN conjunct2, THEN conjunct1]
  note t5 = t[THEN conjunct2, THEN conjunct2, THEN conjunct2, THEN conjunct2]
  from t2 st have 1: "length (undoStack st) \<le> 50 \<and> length (redoStack st) \<le> 50" by blast
  from t5 d l n obtain st' where 2: "current_state (run (concat (map delete_restore_pair sixty_stamps)) demo_session)
              = Some st'" "stamps (undoStack st') = concat (map pair_stamps (drop 35 sixty_stamps))"
           "length (undoStack st') = 50" "redoStack st' = []"
    by blast
  have 3: "hd (stamps (undoStack st')) = (''delete'', 70)"
    "last (stamps (undoStack st')) = (''restore'', 119)"
    unfolding 2(2) by (simp_all add: sixty_stamps_def pair_stamps_def upt_rec[of _ 60] drop_map)
  from t3 d obtain act where 4: "timestamp act = 9"
    "current_state (recordAction 9 ''delete'' [2] demo_session) =
       Some (st0\<lparr>undoStack := (if length (undoStack st0) = 50 then tl (undoStack st0)
                          else undoStack st0) @ [act], redoStack := []\<rparr>)"
    by blast
  show ?thesis using st 1 d l n e 2 3 4 by (simp add: st0_def)
qed

lemma getBoxesForSave_subset: "set (getBoxesForSave s) \<subseteq> set (getCurrentBoxes s)"
  by (auto simp: getBoxesForSave_def getCurrentBoxes_def split: option.splits)

lemma assign_frame:
  "imageStates (step (Assign r b) s) = imageStates s"
  "currentIndex (step (Assign r b) s) = currentIndex s"
  "globalModified (step (Assign r b) s) = globalModified s"
  "cells (store (step (Assign r b) s)) x = (if x = r then b else cells (store s) x)"
  by simp_all

lemma assign_working_view:
  "current_state s = Some st \<Longrightarrow>
   working_view (step (Assign r b) s) (currentIndex s)
     = Some (map (\<lambda>x. if x = r then b else cells (store s) x) (boxes st))"
  by (simp add: working_view_def current_state_def)

lemma assign_kept:
  assumes sep: "separated s" and r: "r \<in> set (getCurrentBoxes s)"
  shows "snapshot_view (step (Assign r b) s) i = snapshot_view s i \<and>
         stacks_view (step (Assign r b) s) i = stacks_view s i"
proof (cases "imageStates s i")
  case None
  then show ?thesis by (simp add: snapshot_view_def stacks_view_def)
next
  case (Some st')
  from r obtain st where st: "imageStates s (currentIndex s) = Some st" "r \<in> set (boxes st)"
    by (cases "imageStates s (currentIndex s)") (auto simp: getCurrentBoxes_def current_state_def)
  from sep st(1) Some have "set (boxes st) \<inter> kept_refs st' = {}"
    unfolding separated_def by blast
  with st(2) have "r \<notin> kept_refs st'" by blast
  then have o: "r \<notin> set (originalBoxes st')"
    and a: "\<forall>a\<in>set (undoStack st') \<union> set (redoStack st'). r \<notin> set (action_boxes a)"
    by (auto simp: kept_refs_def)
  have av: "action_view (store (step (Assign r b) s)) a = action_view (store s) a"
    if "a \<in> set (undoStack st') \<union> set (redoStack st')" for a
    using a that by (auto simp: action_view_def)
  show ?thesis
    using o av by (auto simp: snapshot_view_def stacks_view_def Some)
qed

lemma cloneBoxes_fresh:
  assumes "cloneBoxes rs h = (rs', h')"
  shows "next_ref h \<le> next_ref h'" "\<forall>r\<in>set rs'. next_ref h \<le> r \<and> r < next_ref h'"
  using cloneBoxes_refs[OF assms] by auto

lemma owns_apart_update:
  assumes inv: "owns_apart s"
    and im: "imageStates s' = (imageStates s)(i \<mapsto> st')"
    and nx: "next_ref (store s) \<le> next_ref (store s')"
    and bx: "\<forall>r\<in>set (boxes st').
        (next_ref (store s) \<le> r \<or> (\<exists>st. imageStates s i = Some st \<and> r \<in> set (boxes st))) \<and>
        r < next_ref (store s')"
    and kp: "\<forall>r\<in>kept_refs st'.
        (next_ref (store s) \<le> r \<or> (\<exists>st. imageStates s i = Some st \<and> r \<in> kept_refs st)) \<and>
        r < next_ref (store s')"
    and own: "set (boxes st') \<inter> kept_refs st' = {}"
  shows "owns_apart s'"
proof -
  from inv have al: "\<And>j st r. imageStates s j = Some st \<Longrightarrow>
      r \<in> set (boxes st) \<union> kept_refs st \<Longrightarrow> r < next_ref (store s)"
    and sp: "\<And>j st k st2. imageStates s j = Some st \<Longrightarrow> imageStates s k = Some st2 \<Longrightarrow>
      set (boxes st) \<inter> kept_refs st2 = {}"
    unfolding owns_apart_def refs_allocated_def separated_def by blast+
  have "refs_allocated s'"
    unfolding refs_allocated_def
  proof (intro allI impI ballI)
    fix j st r assume a: "imageStates s' j = Some st" "r \<in> set (boxes st) \<union> kept_refs st"
    show "r < next_ref (store s')"
    proof (cases "j = i")
      case True
      with a im have "st = st'" by simp
      with a bx kp show ?thesis by auto
    next
      case False
      with a im have "imageStates s j = Some st" by simp
      from al[OF this a(2)] nx show ?thesis by simp
    qed
  qed
  moreover have "separated s'"
    unfolding separated_def
  proof (intro allI impI)
    fix j st k st2
    assume a: "imageStates s' j = Some st \<and> imageStates s' k = Some st2"
    show "set (boxes st) \<inter> kept_refs st2 = {}"
    proof (cases "j = i"; cases "k = i")
      assume "j = i" "k = i"
      with a im have "st = st'" "st2 = st'" by auto
      with own show ?thesis by simp
    next
      assume j: "j = i" and k: "k \<noteq> i"
      with a im have e: "st = st'" "imageStates s k = Some st2" by simp_all
      show ?thesis
      proof (rule ccontr)
        assume "set (boxes st) \<inter> kept_refs st2 \<noteq> {}"
        then obtain r where r: "r \<in> set (boxes st')" "r \<in> kept_refs st2" using e by auto
        from al[OF e(2)] r(2) have lt: "r < next_ref (store s)" by simp
        with bx r(1) obtain st0 where "imageStates s i = Some st0" "r \<in> set (boxes st0)"
          by fastforce
        with sp[OF this(1) e(2)] r(2) show False by auto
      qed
    next
      assume j: "j \<noteq> i" and k: "k = i"
      with a im have e: "st2 = st'" "imageStates s j = Some st" by simp_all
      show ?thesis
      proof (rule ccontr)
        assume "set (boxes st) \<inter> kept_refs st2 \<noteq> {}"
        then obtain r where r: "r \<in> set (boxes st)" "r \<in> kept_refs st'" using e by auto
        from al[OF e(2)] r(1) have lt: "r < next_ref (store s)" by simp
        with kp r(2) obtain st0 where "imageStates s i = Some st0" "r \<in> kept_refs st0"
          by fastforce
        with sp[OF e(2) this(1)] r(1) show False by auto
      qed
    next
      assume "j \<noteq> i" "k \<noteq> i"
      with a im have "imageStates s j = Some st" "imageStates s k = Some st2" by simp_all
      then show ?thesis by (rule sp)
    qed
  qed
  ultimately show ?thesis by (simp add: owns_apart_def)
qed

lemma owns_apart_same:
  assumes "owns_apart s" "imageStates s' = imageStates s"
    "next_ref (store s) \<le> next_ref (store s')"
  shows "owns_apart s'"
proof -
  from assms(1) have "refs_allocated s" "separated s" by (simp_all add: owns_apart_def)
  then have "separated s'" using assms(2) by (simp add: separated_def)
  moreover have "refs_allocated s'"
    unfolding refs_allocated_def
  proof (intro allI impI ballI)
    fix i st r assume "imageStates s' i = Some st" "r \<in> set (boxes st) \<union> kept_refs st"
    with \<open>refs_allocated s\<close> assms(2) have "r < next_ref (store s)"
      unfolding refs_allocated_def by auto
    with assms(3) show "r < next_ref (store s')" by simp
  qed
  ultimately show ?thesis by (simp add: owns_apart_def)
qed

lemma owns_apart_cong:
  "imageStates s' = imageStates s \<Longrightarrow> next_ref (store s') = next_ref (store s) \<Longrightarrow>
   owns_apart s' = owns_apart s"
  by (simp add: owns_apart_def refs_allocated_def separated_def)

lemma owns_apart_current:
  assumes "owns_apart s" "current_state s = Some st"
  shows "\<forall>r\<in>set (boxes st) \<union> kept_refs st. r < next_ref (store s)"
    "set (boxes st) \<inter> kept_refs st = {}"
  using assms unfolding owns_apart_def refs_allocated_def separated_def current_state_def
  by blast+

lemma owns_apart_put:
  assumes "owns_apart s" "current_state s = Some st" "next_ref (store s) \<le> next_ref h'"
    "\<forall>r\<in>set (boxes st'). (next_ref (store s) \<le> r \<or> r \<in> set (boxes st)) \<and> r < next_ref h'"
    "\<forall>r\<in>kept_refs st'. (next_ref (store s) \<le> r \<or> r \<in> kept_refs st) \<and> r < next_ref h'"
    "set (boxes st') \<inter> kept_refs st' = {}"
  shows "owns_apart ((put_state st' s)\<lparr>store := h'\<rparr>)"
  using assms(1)
proof (rule owns_apart_update[where i = "currentIndex s" and st' = st'])
  show "imageStates ((put_state st' s)\<lparr>store := h'\<rparr>) = (imageStates s)(currentIndex s \<mapsto> st')"
    by (simp add: put_state_def)
  show "next_ref (store s) \<le> next_ref (store ((put_state st' s)\<lparr>store := h'\<rparr>))"
    using assms(3) by simp
  show "\<forall>r\<in>set (boxes st').
       (next_ref (store s) \<le> r \<or>
        (\<exists>st. imageStates s (currentIndex s) = Some st \<and> r \<in> set (boxes st))) \<and>
       r < next_ref (store ((put_state st' s)\<lparr>store := h'\<rparr>))"
    using assms(2,4) by (auto simp: current_state_def)
  show "\<forall>r\<in>kept_refs st'.
       (next_ref (store s) \<le> r \<or>
        (\<exists>st. imageStates s (currentIndex s) = Some st \<and> r \<in> kept_refs st)) \<and>
       r < next_ref (store ((put_state st' s)\<lparr>store := h'\<rparr>))"
    using assms(2,5) by (auto simp: current_state_def)
  show "set (boxes st') \<inter> kept_refs st' = {}" by (rule assms(6))
qed

lemma owns_apart_fields [simp]:
  "owns_apart (s\<lparr>globalModified := m\<rparr>) = owns_apart s"
  "owns_apart (s\<lparr>currentIndex := i\<rparr>) = owns_apart s"
  by (simp_all add: owns_apart_def refs_allocated_def separated_def)

lemma owns_apart_put_general:
  assumes inv: "owns_apart s" and st: "current_state s = Some st"
    and nx: "next_ref (store s) \<le> next_ref h'"
    and bx: "set (boxes st') \<subseteq> set (boxes st) \<union> F"
    and kp: "kept_refs st' \<subseteq> kept_refs st \<union> G"
    and fr: "\<forall>r\<in>F \<union> G. next_ref (store s) \<le> r \<and> r < next_ref h'"
    and dj: "F \<inter> G = {}"
  shows "owns_apart ((put_state st' s)\<lparr>store := h'\<rparr>)"
proof (rule owns_apart_put[OF inv st nx])
  note o = owns_apart_current[OF inv st]
  have old: "r < next_ref (store s)" if "r \<in> set (boxes st) \<union> kept_refs st" for r
    using o(1) that by blast
  show "\<forall>r\<in>set (boxes st'). (next_ref (store s) \<le> r \<or> r \<in> set (boxes st)) \<and> r < next_ref h'"
  proof
    fix r assume "r \<in> set (boxes st')"
    with bx have "r \<in> set (boxes st) \<or> r \<in> F" by blast
    then show "(next_ref (store s) \<le> r \<or> r \<in> set (boxes st)) \<and> r < next_ref h'"
    proof
      assume a: "r \<in> set (boxes st)"
      then have "r < next_ref (store s)" using old by blast
      with nx a show ?thesis by simp
    next
      assume "r \<in> F"
      with fr show ?thesis by blast
    qed
  qed
  show "\<forall>r\<in>kept_refs st'. (next_ref (store s) \<le> r \<or> r \<in> kept_refs st) \<and> r < next_ref h'"
  proof
    fix r assume "r \<in> kept_refs st'"
    with kp have "r \<in> kept_refs st \<or> r \<in> G" by blast
    then show "(next_ref (store s) \<le> r \<or> r \<in> kept_refs st) \<and> r < next_ref h'"
    proof
      assume a: "r \<in> kept_refs st"
      then have "r < next_ref (store s)" using old by blast
      with nx a show ?thesis by simp
    next
      assume "r \<in> G"
      with fr show ?thesis by blast
    qed
  qed
  show "set (boxes st') \<inter> kept_refs st' = {}"
  proof (rule ccontr)
    assume "set (boxes st') \<inter> kept_refs st' \<noteq> {}"
    then obtain r where r: "r \<in> set (boxes st')" "r \<in> kept_refs st'" by blast
    from r(1) bx have b: "r \<in> set (boxes st) \<or> r \<in> F" by blast
    from r(2) kp have k: "r \<in> kept_refs st \<or> r \<in> G" by blast
    from b show False
    proof
      assume b1: "r \<in> set (boxes st)"
      from k show False
      proof
        assume "r \<in> kept_refs st"
        with b1 o(2) show False by blast
      next
        assume "r \<in> G"
        with fr have "next_ref (store s) \<le> r" by blast
        moreover have "r < next_ref (store s)" using old b1 by blast
        ultimately show False by simp
      qed
    next
      assume b2: "r \<in> F"
      from k show False
      proof
        assume k1: "r \<in> kept_refs st"
        from b2 fr have "next_ref (store s) \<le> r" by blast
        moreover have "r < next_ref (store s)" using old k1 by blast
        ultimately show False by simp
      next
        assume "r \<in> G"
        with b2 dj show False by blast
      qed
    qed
  qed
qed

lemma kept_refs_simps [simp]:
  "kept_refs (st\<lparr>boxes := bs\<rparr>) = kept_refs st"
  "kept_refs \<lparr>boxes = w, originalBoxes = orig, undoStack = [], redoStack = []\<rparr> = set orig"
  "kept_refs (st\<lparr>originalBoxes := orig, boxes := bs, undoStack := [], redoStack := []\<rparr>) = set orig"
  "kept_refs (st\<lparr>boxes := bs, undoStack := [], redoStack := []\<rparr>) = set (originalBoxes st)"
  by (simp_all add: kept_refs_def)

lemma owns_apart_setCurrentBoxes: "owns_apart s \<Longrightarrow> owns_apart (setCurrentBoxes bxs s)"
proof (cases "current_state s")
  case None
  assume "owns_apart s"
  then show ?thesis using None by (simp add: setCurrentBoxes_def)
next
  case (Some st)
  assume inv: "owns_apart s"
  obtain bs h where c: "cloneBoxes bxs (store s) = (bs, h)" by (cases "cloneBoxes bxs (store s)")
  note f = cloneBoxes_fresh[OF c]
  have "owns_apart ((put_state (st\<lparr>boxes := bs\<rparr>) s)\<lparr>store := h\<rparr>)"
    by (rule owns_apart_put_general[OF inv Some f(1), where F = "set bs" and G = "{}"])
      (use f(2) in simp_all)
  then show ?thesis by (simp add: setCurrentBoxes_def Some c)
qed

lemma owns_apart_resetCurrent: "owns_apart s \<Longrightarrow> owns_apart (resetCurrent s)"
proof (cases "current_state s")
  case None
  assume "owns_apart s"
  then show ?thesis using None by (simp add: resetCurrent_def)
next
  case (Some st)
  assume inv: "owns_apart s"
  obtain bs h where c: "cloneBoxes (originalBoxes st) (store s) = (bs, h)"
    by (cases "cloneBoxes (originalBoxes st) (store s)")
  note f = cloneBoxes_fresh[OF c]
  have k: "set (originalBoxes st) \<subseteq> kept_refs st" by (auto simp: kept_refs_def)
  have "owns_apart ((put_state (st\<lparr>boxes := bs, undoStack := [], redoStack := []\<rparr>) s)\<lparr>store := h\<rparr>)"
    by (rule owns_apart_put_general[OF inv Some f(1), where F = "set bs" and G = "{}"])
      (use f(2) k in simp_all)
  then show ?thesis by (simp add: resetCurrent_def Some c)
qed

lemma owns_apart_markSaved: "owns_apart s \<Longrightarrow> owns_apart (markSaved s)"
proof (cases "current_state s")
  case None
  assume "owns_apart s"
  then show ?thesis using None by (simp add: markSaved_def)
next
  case (Some st)
  assume inv: "owns_apart s"
  let ?nd = "filter (\<lambda>b. \<not> deleted (cells (store s) b)) (boxes st)"
  obtain orig h1 where c1: "cloneBoxes ?nd (store s) = (orig, h1)"
    by (cases "cloneBoxes ?nd (store s)")
  obtain bs h2 where c2: "cloneBoxes ?nd h1 = (bs, h2)" by (cases "cloneBoxes ?nd h1")
  note f1 = cloneBoxes_fresh[OF c1]
  note f2 = cloneBoxes_fresh[OF c2]
  have nx: "next_ref (store s) \<le> next_ref h2" using f1(1) f2(1) by simp
  have fr: "\<forall>r\<in>set bs \<union> set orig. next_ref (store s) \<le> r \<and> r < next_ref h2"
    using f1 f2 by fastforce
  have dj: "set bs \<inter> set orig = {}" using f1(2) f2(2) by fastforce
  have "owns_apart ((put_state
         (st\<lparr>originalBoxes := orig, boxes := bs, undoStack := [], redoStack := []\<rparr>) s)\<lparr>store := h2\<rparr>)"
    by (rule owns_apart_put_general[OF inv Some nx, where F = "set bs" and G = "set orig"])
      (use fr dj in simp_all)
  then show ?thesis by (simp add: markSaved_def Some c1 c2)
qed

lemma owns_apart_initImageState: "owns_apart s \<Longrightarrow> owns_apart (initImageState i bxs s)"
proof (cases "imageStates s i")
  case (Some st)
  assume "owns_apart s"
  then show ?thesis using Some by (simp add: initImageState_def)
next
  case None
  assume inv: "owns_apart s"
  obtain w h1 where c1: "cloneBoxes bxs (store s) = (w, h1)" by (cases "cloneBoxes bxs (store s)")
  obtain orig h2 where c2: "cloneBoxes bxs h1 = (orig, h2)" by (cases "cloneBoxes bxs h1")
  note f1 = cloneBoxes_fresh[OF c1]
  note f2 = cloneBoxes_fresh[OF c2]
  have nx: "next_ref (store s) \<le> next_ref h2" using f1(1) f2(1) by simp
  have fw: "\<forall>r\<in>set w. next_ref (store s) \<le> r \<and> r < next_ref h2" using f1 f2 by fastforce
  have fo: "\<forall>r\<in>set orig. next_ref (store s) \<le> r \<and> r < next_ref h2" using f1 f2 by fastforce
  have dj: "set w \<inter> set orig = {}" using f1(2) f2(2) by fastforce
  let ?st = "\<lparr>boxes = w, originalBoxes = orig, undoStack = [], redoStack = []\<rparr>"
  let ?s' = "s\<lparr>imageStates := (imageStates s)(i \<mapsto> ?st), store := h2\<rparr>"
  have "owns_apart ?s'"
    using inv
  proof (rule owns_apart_update[where i = i and st' = ?st])
    show "imageStates ?s' = (imageStates s)(i \<mapsto> ?st)" by simp
    show "next_ref (store s) \<le> next_ref (store ?s')" using nx by simp
    show "\<forall>r\<in>set (boxes ?st).
       (next_ref (store s) \<le> r \<or> (\<exists>st. imageStates s i = Some st \<and> r \<in> set (boxes st))) \<and>
       r < next_ref (store ?s')" using fw by simp
    show "\<forall>r\<in>kept_refs ?st.
       (next_ref (store s) \<le> r \<or> (\<exists>st. imageStates s i = Some st \<and> r \<in> kept_refs st)) \<and>
       r < next_ref (store ?s')" using fo by simp
    show "set (boxes ?st) \<inter> kept_refs ?st = {}" using dj by simp
  qed
  then show ?thesis by (simp add: initImageState_def None c1 c2)
qed

lemma owns_apart_store:
  "next_ref h = next_ref (store s) \<Longrightarrow> owns_apart (s\<lparr>store := h\<rparr>) = owns_apart s"
  by (simp add: owns_apart_def refs_allocated_def separated_def)

lemma owns_apart_recordAction: "owns_apart s \<Longrightarrow> owns_apart (recordAction now ty bxs s)"
proof (cases "current_state s")
  case None
  assume "owns_apart s"
  then show ?thesis using None by (simp add: recordAction_def)
next
  case (Some st)
  assume inv: "owns_apart s"
  obtain bs h where c: "cloneBoxes bxs (store s) = (bs, h)" by (cases "cloneBoxes bxs (store s)")
  note f = cloneBoxes_fresh[OF c]
  let ?act = "\<lparr>action_type = ty, action_boxes = bs, timestamp = now\<rparr>"
  let ?pushed = "undoStack st @ [?act]"
  let ?trimmed = "if length ?pushed > maxStackSize then tl ?pushed else ?pushed"
  have sub: "set ?trimmed \<subseteq> set (undoStack st) \<union> {?act}"
    by (cases "undoStack st") auto
  have k: "kept_refs (st\<lparr>undoStack := ?trimmed, redoStack := []\<rparr>) \<subseteq> kept_refs st \<union> set bs"
  proof
    fix r assume "r \<in> kept_refs (st\<lparr>undoStack := ?trimmed, redoStack := []\<rparr>)"
    then have "r \<in> set (originalBoxes st) \<or> (\<exists>a\<in>set ?trimmed. r \<in> set (action_boxes a))"
      by (auto simp: kept_refs_def)
    then show "r \<in> kept_refs st \<union> set bs"
    proof
      assume "r \<in> set (originalBoxes st)"
      then show ?thesis by (simp add: kept_refs_def)
    next
      assume "\<exists>a\<in>set ?trimmed. r \<in> set (action_boxes a)"
      then obtain a where a: "a \<in> set ?trimmed" "r \<in> set (action_boxes a)" by blast
      with sub have "a \<in> set (undoStack st) \<or> a = ?act" by blast
      then show ?thesis using a(2) by (auto simp: kept_refs_def)
    qed
  qed
  have "owns_apart ((put_state (st\<lparr>undoStack := ?trimmed, redoStack := []\<rparr>) s)\<lparr>store := h\<rparr>)"
    by (rule owns_apart_put_general[OF inv Some f(1), where F = "{}" and G = "set bs"])
      (use f(2) k in simp_all)
  then show ?thesis by (simp add: recordAction_def Some c Let_def)
qed

lemma next_ref_replay [simp]: "next_ref (replay d saved bs h) = next_ref h"
  using replay_effect[of d saved bs h 0] by simp

lemma kept_refs_move:
  "xs \<noteq> [] \<Longrightarrow>
   kept_refs (st\<lparr>undoStack := butlast xs, redoStack := ys @ [last xs]\<rparr>)
     = kept_refs (st\<lparr>undoStack := xs, redoStack := ys\<rparr>)"
  "xs \<noteq> [] \<Longrightarrow>
   kept_refs (st\<lparr>redoStack := butlast xs, undoStack := ys @ [last xs]\<rparr>)
     = kept_refs (st\<lparr>redoStack := xs, undoStack := ys\<rparr>)"
  by (cases xs rule: rev_cases; auto simp: kept_refs_def)+

lemma owns_apart_updateModifiedState: "owns_apart (updateModifiedState s) = owns_apart s"
  by (rule owns_apart_cong) simp_all

lemma owns_apart_undo: "owns_apart s \<Longrightarrow> owns_apart (snd (undo s))"
proof (cases "fst (undo s)")
  case False
  assume "owns_apart s"
  then show ?thesis using False by (auto simp: undo_def Let_def split: option.splits if_splits)
next
  case True
  assume inv: "owns_apart s"
  from undo_refused[OF True] obtain st where st: "current_state s = Some st" "undoStack st \<noteq> []"
    by blast
  let ?st' = "st\<lparr>undoStack := butlast (undoStack st),
                 redoStack := redoStack st @ [last (undoStack st)]\<rparr>"
  have k: "kept_refs ?st' = kept_refs st" using kept_refs_move(1)[OF st(2), where st = st and ys = "redoStack st"] by simp
  have n: "next_ref (undo_store st (store s)) = next_ref (store s)"
    by (simp add: undo_store_def Let_def)
  have "owns_apart ((put_state ?st' s)\<lparr>store := undo_store st (store s)\<rparr>)"
    by (rule owns_apart_put_general[OF inv st(1), where F = "{}" and G = "{}"])
      (use k n in simp_all)
  then show ?thesis
    unfolding undo_performed[OF st] by (simp add: owns_apart_updateModifiedState)
qed

lemma owns_apart_redo: "owns_apart s \<Longrightarrow> owns_apart (snd (redo s))"
proof (cases "fst (redo s)")
  case False
  assume "owns_apart s"
  then show ?thesis using False by (auto simp: redo_def Let_def split: option.splits if_splits)
next
  case True
  assume inv: "owns_apart s"
  from redo_refused[OF True] obtain st where st: "current_state s = Some st" "redoStack st \<noteq> []"
    by blast
  let ?st' = "st\<lparr>redoStack := butlast (redoStack st),
                 undoStack := undoStack st @ [last (redoStack st)]\<rparr>"
  have k: "kept_refs ?st' = kept_refs st" using kept_refs_move(2)[OF st(2), where st = st and ys = "undoStack st"] by simp
  have n: "next_ref (redo_store st (store s)) = next_ref (store s)"
    by (simp add: redo_store_def Let_def)
  have "owns_apart ((put_state ?st' s)\<lparr>store := redo_store st (store s)\<rparr>)"
    by (rule owns_apart_put_general[OF inv st(1), where F = "{}" and G = "{}"])
      (use k n in simp_all)
  then show ?thesis
    unfolding redo_performed[OF st] by (simp add: owns_apart_updateModifiedState)
qed

lemma owns_apart_marked:
  assumes "owns_apart s1"
  shows "owns_apart (markModified (s1\<lparr>store := mark_all d sel (store s1)\<rparr>))"
proof -
  have "owns_apart (s1\<lparr>store := mark_all d sel (store s1)\<rparr>)"
    using assms by (simp add: owns_apart_store)
  then show ?thesis by (simp add: markModified_def)
qed

lemma owns_apart_deleteSelected:
  assumes "owns_apart s"
  shows "owns_apart (snd (deleteSelected now s))"
proof (cases "fst (deleteSelected now s) = 0")
  case True
  then have "snd (deleteSelected now s) = s" using deleteSelected_cases[of now s] by blast
  then show ?thesis using assms by simp
next
  case False
  then obtain st where st: "current_state s = Some st"
    using deleteSelected_refused by blast
  let ?sel = "filter (\<lambda>b. selected (cells (store s) b) \<and> \<not> deleted (cells (store s) b)) (boxes st)"
  from False st have ne: "?sel \<noteq> []"
    by (auto simp: deleteSelected_def Let_def split: if_splits)
  let ?s1 = "recordAction now ''delete'' ?sel s"
  have "snd (deleteSelected now s) = markModified (?s1\<lparr>store := mark_all True ?sel (store ?s1)\<rparr>)"
    using st ne by (simp add: deleteSelected_def Let_def)
  then show ?thesis
    using owns_apart_marked[OF owns_apart_recordAction[OF assms]] by simp
qed

lemma owns_apart_restoreDeleted:
  assumes "owns_apart s"
  shows "owns_apart (snd (restoreDeleted b now s))"
proof (cases "fst (restoreDeleted b now s) = 0")
  case True
  then have "snd (restoreDeleted b now s) = s" using restoreDeleted_cases[of b now s] by blast
  then show ?thesis using assms by simp
next
  case False
  then obtain st where st: "current_state s = Some st"
    using restoreDeleted_cases[of b now s] by (cases "current_state s") auto
  let ?sel = "if b then filter (\<lambda>b. deleted (cells (store s) b) \<and> selected (cells (store s) b)) (boxes st)
      else filter (\<lambda>b. deleted (cells (store s) b)) (boxes st)"
  from False st have ne: "?sel \<noteq> []"
    by (auto simp: restoreDeleted_def Let_def split: if_splits)
  let ?s1 = "recordAction now ''restore'' ?sel s"
  have "snd (restoreDeleted b now s) = markModified (?s1\<lparr>store := mark_all False ?sel (store ?s1)\<rparr>)"
    using st ne by (simp add: restoreDeleted_def Let_def)
  then show ?thesis
    using owns_apart_marked[OF owns_apart_recordAction[OF assms]] by simp
qed

lemma owns_apart_remove:
  assumes "owns_apart s"
  shows "owns_apart (s\<lparr>imageStates := (imageStates s)(i := None)\<rparr>)"
proof -
  let ?s' = "s\<lparr>imageStates := (imageStates s)(i := None)\<rparr>"
  have old: "imageStates s j = Some st" if "imageStates ?s' j = Some st" for j st
    using that by (cases "j = i") simp_all
  from assms have al: "\<And>j st r. imageStates s j = Some st \<Longrightarrow>
      r \<in> set (boxes st) \<union> kept_refs st \<Longrightarrow> r < next_ref (store s)"
    and sp: "\<And>j st k st2. imageStates s j = Some st \<Longrightarrow> imageStates s k = Some st2 \<Longrightarrow>
      set (boxes st) \<inter> kept_refs st2 = {}"
    unfolding owns_apart_def refs_allocated_def separated_def by blast+
  have "refs_allocated ?s'"
    unfolding refs_allocated_def
  proof (intro allI impI ballI)
    fix j st r assume "imageStates ?s' j = Some st" "r \<in> set (boxes st) \<union> kept_refs st"
    then show "r < next_ref (store ?s')" using al[OF old] by simp
  qed
  moreover have "separated ?s'"
    unfolding separated_def
  proof (intro allI impI)
    fix j st k st2 assume "imageStates ?s' j = Some st \<and> imageStates ?s' k = Some st2"
    then show "set (boxes st) \<inter> kept_refs st2 = {}" using sp[OF old old] by blast
  qed
  ultimately show ?thesis by (simp add: owns_apart_def)
qed

lemma owns_apart_selectAll: "owns_apart (selectAll s) = owns_apart s"
  by (cases "current_state s") (simp_all add: selectAll_def owns_apart_store select_live_keeps)

lemma owns_apart_clearSelection: "owns_apart (clearSelection s) = owns_apart s"
  by (cases "current_state s")
    (simp_all add: clearSelection_def owns_apart_store deselect_all_keeps)

lemma owns_apart_toggleBoxSelection: "owns_apart (toggleBoxSelection i s) = owns_apart s"
  by (cases "current_state s")
    (simp_all add: toggleBoxSelection_def owns_apart_store split: option.splits)

lemma owns_apart_selectBox: "owns_apart (selectBox i s) = owns_apart s"
proof -
  let ?s = "clearSelection s"
  have "owns_apart (selectBox i s) = owns_apart ?s"
    by (cases "current_state ?s")
      (simp_all add: selectBox_def Let_def owns_apart_store split: option.splits)
  then show ?thesis by (simp add: owns_apart_clearSelection)
qed

lemma owns_apart_step: "owns_apart s \<Longrightarrow> owns_apart (step c s)"
proof (cases c)
  case (InitImageState i bxs)
  assume "owns_apart s"
  then show ?thesis unfolding InitImageState step.simps by (rule owns_apart_initImageState)
next
  case (SetCurrentIndex i)
  assume "owns_apart s"
  then show ?thesis by (simp add: SetCurrentIndex setCurrentIndex_def)
next
  case (SetCurrentBoxes bxs)
  assume "owns_apart s"
  then show ?thesis unfolding SetCurrentBoxes step.simps by (rule owns_apart_setCurrentBoxes)
next
  case (RecordAction now ty bxs)
  assume "owns_apart s"
  then show ?thesis unfolding RecordAction step.simps by (rule owns_apart_recordAction)
next
  case Undo
  assume "owns_apart s"
  then show ?thesis unfolding Undo step.simps by (rule owns_apart_undo)
next
  case Redo
  assume "owns_apart s"
  then show ?thesis unfolding Redo step.simps by (rule owns_apart_redo)
next
  case (DeleteSelected now)
  assume "owns_apart s"
  then show ?thesis unfolding DeleteSelected step.simps by (rule owns_apart_deleteSelected)
next
  case (RestoreDeleted b now)
  assume "owns_apart s"
  then show ?thesis unfolding RestoreDeleted step.simps by (rule owns_apart_restoreDeleted)
next
  case SelectAll
  assume "owns_apart s"
  then show ?thesis unfolding SelectAll step.simps by (simp only: owns_apart_selectAll)
next
  case ClearSelection
  assume "owns_apart s"
  then show ?thesis unfolding ClearSelection step.simps by (simp only: owns_apart_clearSelection)
next
  case (ToggleBoxSelection i)
  assume "owns_apart s"
  then show ?thesis
    unfolding ToggleBoxSelection step.simps by (simp only: owns_apart_toggleBoxSelection)
next
  case (SelectBox i)
  assume "owns_apart s"
  then show ?thesis unfolding SelectBox step.simps by (simp only: owns_apart_selectBox)
next
  case MarkModified
  assume "owns_apart s"
  then show ?thesis by (simp add: MarkModified markModified_def)
next
  case MarkSaved
  assume "owns_apart s"
  then show ?thesis unfolding MarkSaved step.simps by (rule owns_apart_markSaved)
next
  case (MarkSavedAt i)
  assume "owns_apart s"
  then show ?thesis
    using owns_apart_markSaved[of "s\<lparr>currentIndex := i\<rparr>"]
    by (simp add: MarkSavedAt markSavedAt_def Let_def)
next
  case (ClearImageState i)
  assume "owns_apart s"
  then show ?thesis
    using owns_apart_remove[of s i] by (simp add: ClearImageState clearImageState_def)
next
  case ClearAll
  show ?thesis
    by (simp add: ClearAll clearAll_def owns_apart_def refs_allocated_def separated_def)
next
  case ResetCurrent
  assume "owns_apart s"
  then show ?thesis unfolding ResetCurrent step.simps by (rule owns_apart_resetCurrent)
next
  case (Create b)
  assume inv: "owns_apart s"
  have "owns_apart (s\<lparr>store := snd (alloc b (store s))\<rparr>)"
    by (rule owns_apart_same[OF inv]) (simp_all add: alloc_def)
  then show ?thesis by (simp add: Create)
next
  case (Assign r b)
  assume "owns_apart s"
  then show ?thesis by (simp add: Assign owns_apart_store)
qed

lemma owns_apart_run: "owns_apart s \<Longrightarrow> owns_apart (run cs s)"
  by (induction cs arbitrary: s) (simp_all add: owns_apart_step)

lemma owns_apart_new: "owns_apart (new_state_manager h)"
  by (simp add: owns_apart_def refs_allocated_def separated_def new_state_manager_def)

text \<open>
  Claim C3, as amended. \<^verbatim>\<open>getCurrentBoxes\<close> returns the working collection itself and
  \<^verbatim>\<open>getBoxesForSave\<close> its boxes that are not deleted: the box objects of the session, not
  clones (the rubber-band selection in main.js sets \<^verbatim>\<open>b.selected = true\<close> on the boxes it
  got from \<^verbatim>\<open>getCurrentBoxes\<close>). An assignment to a returned box is therefore an
  assignment to the box of the working collection. It leaves the original snapshots, the
  actions on the undo and redo stacks and the modified set of every image as they were:
  working collections share no box with snapshots or recorded actions, in every session
  reached from the constructor, because those are filled with clones only.
\<close>

theorem reads_share_working_boxes:
  "set (getBoxesForSave s) \<subseteq> set (getCurrentBoxes s)
   \<and> (current_state s = Some st \<longrightarrow>
        getCurrentBoxes s = boxes st \<and>
        getBoxesForSave s = filter (\<lambda>b. \<not> deleted (cells (store s) b)) (boxes st) \<and>
        working_view (step (Assign r b) s) (currentIndex s)
          = Some (map (\<lambda>x. if x = r then b else cells (store s) x) (boxes st)))
   \<and> (separated s \<and> r \<in> set (getCurrentBoxes s) \<longrightarrow>
        (\<forall>i. snapshot_view (step (Assign r b) s) i = snapshot_view s i \<and>
             stacks_view (step (Assign r b) s) i = stacks_view s i) \<and>
        globalModified (step (Assign r b) s) = globalModified s \<and>
        imageStates (step (Assign r b) s) = imageStates s \<and>
        currentIndex (step (Assign r b) s) = currentIndex s)
   \<and> separated (run cs (new_state_manager h))"
proof (intro conjI impI)
  show "set (getBoxesForSave s) \<subseteq> set (getCurrentBoxes s)" by (rule getBoxesForSave_subset)
next
  assume st: "current_state s = Some st"
  show "getCurrentBoxes s = boxes st" by (simp add: getCurrentBoxes_def st)
  show "getBoxesForSave s = filter (\<lambda>b. \<not> deleted (cells (store s) b)) (boxes st)"
    by (simp add: getBoxesForSave_def st)
  show "working_view (step (Assign r b) s) (currentIndex s)
          = Some (map (\<lambda>x. if x = r then b else cells (store s) x) (boxes st))"
    by (rule assign_working_view[OF st])
next
  assume a: "separated s \<and> r \<in> set (getCurrentBoxes s)"
  show "\<forall>i. snapshot_view (step (Assign r b) s) i = snapshot_view s i \<and>
             stacks_view (step (Assign r b) s) i = stacks_view s i"
    using assign_kept[of s r b] a by blast
  show "globalModified (step (Assign r b) s) = globalModified s"
    "imageStates (step (Assign r b) s) = imageStates s"
    "currentIndex (step (Assign r b) s) = currentIndex s"
    by simp_all
next
  have "owns_apart (run cs (new_state_manager h))"
    by (intro owns_apart_run owns_apart_new)
  then show "separated (run cs (new_state_manager h))" by (simp add: owns_apart_def)
qed

theorem reads_return_copies_counterexample:
  "getCurrentBoxes demo_session = [2, 3] \<and> getBoxesForSave demo_session = [2, 3]
   \<and> working_view demo_session 0 = Some [box_a, box_b]
   \<and> working_view (step select_a demo_session) 0 = Some [box_a\<lparr>selected := True\<rparr>, box_b]
   \<and> working_view (step select_a demo_session) 0 \<noteq> working_view demo_session 0
   \<and> getSelectedCount demo_session = 0
   \<and> getSelectedCount (step select_a demo_session) = 1"
  by (simp add: getCurrentBoxes_def getBoxesForSave_def current_state_def demo_session_eval
      working_view_def select_a_def getSelectedCount_def box_a_def box_b_def)

theorem reads_share_working_boxes_witness:
  "(\<exists>st. current_state demo_session = Some st \<and> boxes st = [2, 3])
   \<and> separated demo_session \<and> 2 \<in> set (getCurrentBoxes demo_session)
   \<and> getBoxesForSave demo_session = [2, 3]
   \<and> working_view (step select_a demo_session) 0 = Some [box_a\<lparr>selected := True\<rparr>, box_b]
   \<and> snapshot_view (step select_a demo_session) 0 = Some [box_a, box_b]
   \<and> snapshot_view (step select_a demo_session) 0 = snapshot_view demo_session 0
   \<and> stacks_view (step select_a demo_session) 0 = stacks_view demo_session 0
   \<and> globalModified (step select_a demo_session) = globalModified demo_session"
proof -
  define st where "st = \<lparr>boxes = [2, 3], originalBoxes = [4, 5], undoStack = [],
     redoStack = ([] :: action list)\<rparr>"
  have c: "current_state demo_session = Some st"
    by (simp add: current_state_def demo_session_eval st_def)
  have d: "demo_session = run [Create box_a, Create box_b, InitImageState 0 [0, 1]]
      (new_state_manager empty_heap)"
    by (simp add: demo_session_def fresh_session_def)
  note t = reads_share_working_boxes[of demo_session st 2 "box_a\<lparr>selected := True\<rparr>"
      "[Create box_a, Create box_b, InitImageState 0 [0, 1]]" empty_heap]
  from t have sep: "separated demo_session" unfolding d[symmetric] by blast
  from t c have g: "getCurrentBoxes demo_session = boxes st"
    "getBoxesForSave demo_session = filter (\<lambda>b. \<not> deleted (cells (store demo_session) b)) (boxes st)"
    "working_view (step select_a demo_session) (currentIndex demo_session)
          = Some (map (\<lambda>x. if x = 2 then box_a\<lparr>selected := True\<rparr> else cells (store demo_session) x) (boxes st))"
    unfolding select_a_def by blast+
  then have r: "2 \<in> set (getCurrentBoxes demo_session)" by (simp add: st_def)
  from t sep r have k: "snapshot_view (step select_a demo_session) 0 = snapshot_view demo_session 0"
    "stacks_view (step select_a demo_session) 0 = stacks_view demo_session 0"
    "globalModified (step select_a demo_session) = globalModified demo_session"
    unfolding select_a_def by blast+
  have sv: "snapshot_view demo_session 0 = Some [box_a, box_b]"
    by (simp add: snapshot_view_def demo_session_eval)
  show ?thesis
    using c sep r g k sv by (simp add: st_def demo_session_eval box_a_def box_b_def)
qed

section \<open>View transform (src/yolo-label-editor/js/main.js)\<close>

text \<open>
  The functions read the module's variables \<^verbatim>\<open>currentBitmap\<close>, \<^verbatim>\<open>currentImageWidth\<close>,
  \<^verbatim>\<open>currentImageHeight\<close>, \<^verbatim>\<open>zoom\<close> and the size of the canvas; the record \<open>view\<close>
  holds them. JavaScript numbers are modelled by real numbers, so rounding is not part of
  the model: what is proved exactly here holds in the program up to the rounding of each
  operation. A division by zero yields an infinity or NaN in JavaScript, no real number:
  \<^verbatim>\<open>canvasPxToImagePx\<close> returns \<open>None\<close> there.
\<close>

record view =
  currentBitmap :: bool
  currentImageWidth :: real
  currentImageHeight :: real
  zoom :: real
  canvas_width :: real
  canvas_height :: real





definition zoomFit :: "bool \<Rightarrow> view \<Rightarrow> view" where
  "zoomFit hasImageSelected v = (if \<not> hasImageSelected then v else v\<lparr>zoom := 1\<rparr>)"










end
